theory Spec2Isabelle
  imports Main
begin

section \<open>Generalized suffix tree (suffixtree.h): data model\<close>

text \<open>
  The class template \<open>SuffixTree<S, C>\<close> is modelled for \<open>S = std::string\<close>, with symbols
  of type \<open>char\<close>. Pointers to nodes are addresses in a store (a list of nodes: the address
  is the index), \<open>nullptr\<close> is \<open>None\<close>. The two members of \<open>Base\<close> have the fixed addresses
  0 (\<open>sink\<close>, declared first) and 1 (\<open>root\<close>); \<open>new\<close> appends a node to the store.
  A C++ \<open>int\<close> is an integer between \<open>INT_MIN\<close> and \<open>INT_MAX\<close> (32 bits). Signed overflow
  is undefined behaviour: the result of every \<open>int\<close> addition and subtraction of the code
  goes through \<open>chk\<close>, which is an error outside this range. Strings are shorter than
  \<open>2^31\<close> symbols (\<open>int s_len = s.length()\<close>).
\<close>

datatype error =
    NullDeref       \<comment> \<open>a member access through \<open>nullptr\<close> (or a pointer outside the store)\<close>
  | EndIterator     \<comment> \<open>\<open>haystack.find(id)->second\<close> where \<open>find\<close> returned \<open>end()\<close>\<close>
  | OutOfRange      \<comment> \<open>\<open>s[i]\<close> with \<open>i < 0\<close> or \<open>i > s.length()\<close>\<close>
  | BadDelete       \<comment> \<open>\<open>delete\<close> of a node that \<open>new\<close> did not allocate\<close>
  | UseAfterFree    \<comment> \<open>a member access through a pointer to a deleted node\<close>
  | IntOverflow     \<comment> \<open>an \<open>int\<close> operation whose result is not an \<open>int\<close>\<close>
  | OutOfFuel       \<comment> \<open>a loop did not finish within the given number of iterations\<close>

definition bnd :: "error + 'a \<Rightarrow> ('a \<Rightarrow> error + 'b) \<Rightarrow> error + 'b" where
  "bnd m f = (case m of Inl e \<Rightarrow> Inl e | Inr x \<Rightarrow> f x)"

definition INT_MAX :: int where
  "INT_MAX = 2147483647"

definition INT_MIN :: int where
  "INT_MIN = - 2147483648"

definition is_int :: "int \<Rightarrow> bool" where
  "is_int x = (INT_MIN \<le> x \<and> x \<le> INT_MAX)"

definition chk :: "int \<Rightarrow> error + int" where
  \<comment> \<open>the value of an \<open>int\<close> expression whose mathematical result is \<open>x\<close>\<close>
  "chk x = (if is_int x then Inr x else Inl IntOverflow)"

record mapped_substring =
  ref_str :: int
  l :: int
  r :: int

record transition =
  sub :: mapped_substring
  tgt :: "nat option"

datatype node_kind = Node | SinkNode | Leaf

record node =
  g :: "(char \<times> transition) list"
  suffix_link :: "nat option"
  kind :: node_kind

record tree =
  nodes :: "node list"
  haystack :: "(int \<times> string) list"
  last_index :: int

type_synonym reference_point = "nat option \<times> (int \<times> int)"

definition sink_addr :: nat where
  "sink_addr = 0"

definition root_addr :: nat where
  "root_addr = 1"

text \<open>\<open>Base()\<close> followed by \<open>SuffixTree()\<close>: the store holds the sink and the root, linked to
  each other, the registry is empty and \<open>last_index\<close> is 0.\<close>

definition Base :: tree where
  "Base = \<lparr>nodes = [\<lparr>g = [], suffix_link = Some root_addr, kind = SinkNode\<rparr>,
                     \<lparr>g = [], suffix_link = Some sink_addr, kind = Node\<rparr>],
          haystack = [], last_index = 0\<rparr>"

subsection \<open>std::unordered_map and std::string\<close>

text \<open>An \<open>unordered_map\<close> is an association list with distinct keys; its iteration order,
  which C++ leaves unspecified, is the order of insertion here.\<close>

definition umap_find :: "('k \<times> 'v) list \<Rightarrow> 'k \<Rightarrow> 'v option" where
  "umap_find m k = map_of m k"

definition umap_insert :: "'k \<Rightarrow> 'v \<Rightarrow> ('k \<times> 'v) list \<Rightarrow> ('k \<times> 'v) list" where
  \<comment> \<open>\<open>m.insert(pair(k, v))\<close>: nothing happens when the key is present\<close>
  "umap_insert k v m = (case map_of m k of None \<Rightarrow> m @ [(k, v)] | Some _ \<Rightarrow> m)"

fun umap_assign :: "'k \<Rightarrow> 'v \<Rightarrow> ('k \<times> 'v) list \<Rightarrow> ('k \<times> 'v) list" where
  \<comment> \<open>\<open>m[k] = v\<close>\<close>
  "umap_assign k v [] = [(k, v)]"
| "umap_assign k v (p # ps) = (if fst p = k then (k, v) # ps else p # umap_assign k v ps)"

definition umap_erase :: "'k \<Rightarrow> ('k \<times> 'v) list \<Rightarrow> ('k \<times> 'v) list" where
  "umap_erase k m = filter (\<lambda>p. fst p \<noteq> k) m"

definition str_at :: "string \<Rightarrow> int \<Rightarrow> error + char" where
  \<comment> \<open>\<open>s[i]\<close> on a \<open>std::string\<close>: \<open>s[s.length()]\<close> is the terminating \<open>'\0'\<close>\<close>
  "str_at s i =
     (if 0 \<le> i \<and> i < int (length s) then Inr (s ! nat i)
      else if i = int (length s) then Inr (CHR 0x00)
      else Inl OutOfRange)"

definition haystack_find :: "tree \<Rightarrow> int \<Rightarrow> error + string" where
  \<comment> \<open>\<open>haystack.find(id)->second\<close>\<close>
  "haystack_find st i = (case umap_find (haystack st) i of None \<Rightarrow> Inl EndIterator | Some s \<Rightarrow> Inr s)"

definition deref :: "tree \<Rightarrow> nat option \<Rightarrow> error + node" where
  "deref st p =
     (case p of None \<Rightarrow> Inl NullDeref
      | Some a \<Rightarrow> if a < length (nodes st) then Inr (nodes st ! a) else Inl NullDeref)"

definition new_node :: "node_kind \<Rightarrow> tree \<Rightarrow> tree \<times> nat" where
  \<comment> \<open>\<open>new Node()\<close>, \<open>new Leaf()\<close>: no transition, \<open>suffix_link(nullptr)\<close>\<close>
  "new_node kd st =
     (st\<lparr>nodes := nodes st @ [\<lparr>g = [], suffix_link = None, kind = kd\<rparr>]\<rparr>, length (nodes st))"

definition set_g :: "nat \<Rightarrow> (char \<times> transition) list \<Rightarrow> tree \<Rightarrow> tree" where
  \<comment> \<open>the store after a write to the member \<open>g\<close> of the node at address \<open>a\<close>\<close>
  "set_g a m st = st\<lparr>nodes := (nodes st)[a := (nodes st ! a)\<lparr>g := m\<rparr>]\<rparr>"

definition g_insert :: "nat option \<Rightarrow> char \<Rightarrow> transition \<Rightarrow> tree \<Rightarrow> error + tree" where
  \<comment> \<open>\<open>p->g.insert(pair(c, t))\<close>\<close>
  "g_insert p c t st =
     (case p of None \<Rightarrow> Inl NullDeref
      | Some a \<Rightarrow> if a < length (nodes st)
                 then Inr (set_g a (umap_insert c t (g (nodes st ! a))) st)
                 else Inl NullDeref)"

definition g_assign :: "nat option \<Rightarrow> char \<Rightarrow> transition \<Rightarrow> tree \<Rightarrow> error + tree" where
  \<comment> \<open>\<open>p->g[c] = t\<close>\<close>
  "g_assign p c t st =
     (case p of None \<Rightarrow> Inl NullDeref
      | Some a \<Rightarrow> if a < length (nodes st)
                 then Inr (set_g a (umap_assign c t (g (nodes st ! a))) st)
                 else Inl NullDeref)"

definition set_suffix_link :: "nat option \<Rightarrow> nat option \<Rightarrow> tree \<Rightarrow> error + tree" where
  \<comment> \<open>\<open>p->suffix_link = q\<close>\<close>
  "set_suffix_link p q st =
     (case p of None \<Rightarrow> Inl NullDeref
      | Some a \<Rightarrow> if a < length (nodes st)
                 then Inr (st\<lparr>nodes := (nodes st)[a := (nodes st ! a)\<lparr>suffix_link := q\<rparr>]\<rparr>)
                 else Inl NullDeref)"

subsection \<open>Node lookup\<close>

text \<open>\<open>Node::find_alpha_transition\<close> and its override in \<open>SinkNode\<close>; \<open>Leaf\<close> inherits the
  one of \<open>Node\<close>.\<close>

definition find_alpha_transition :: "node \<Rightarrow> char \<Rightarrow> transition" where
  "find_alpha_transition nd alpha =
     (if kind nd = SinkNode
      then \<lparr>sub = \<lparr>ref_str = 0, l = 0, r = 0\<rparr>, tgt = suffix_link nd\<rparr>
      else (case umap_find (g nd) alpha of
              None \<Rightarrow> \<lparr>sub = \<lparr>ref_str = 0, l = 0, r = - 1\<rparr>, tgt = None\<rparr>
            | Some t \<Rightarrow> t))"

subsection \<open>test_and_split\<close>

definition test_and_split ::
  "tree \<Rightarrow> nat option \<Rightarrow> mapped_substring \<Rightarrow> char \<Rightarrow> string \<Rightarrow> error + (tree \<times> bool \<times> nat option)" where
  "test_and_split st n kp t w =
     bnd (str_at w (l kp)) (\<lambda>tk.
     bnd (chk (r kp - l kp)) (\<lambda>delta.
       if 0 \<le> delta then
         bnd (deref st n) (\<lambda>nd.
           let tk_trans = find_alpha_transition nd tk;
               kp_prime = sub tk_trans
           in bnd (haystack_find st (ref_str kp_prime)) (\<lambda>str_prime.
              bnd (chk (l kp_prime + delta)) (\<lambda>i0.
              bnd (chk (i0 + 1)) (\<lambda>i1.
              bnd (str_at str_prime i1) (\<lambda>c.
                if c = t then Inr (st, True, n)
                else
                  let (st1, a) = new_node Node st in
                  bnd (chk (delta + 1)) (\<lambda>d1.
                  bnd (chk (l (sub tk_trans) + d1)) (\<lambda>l1.
                    let new_t = tk_trans\<lparr>sub := (sub tk_trans)\<lparr>l := l1\<rparr>\<rparr>
                    in bnd (str_at str_prime (l (sub new_t))) (\<lambda>c'.
                       bnd (g_insert (Some a) c' new_t st1) (\<lambda>st2.
                       bnd (chk (l (sub tk_trans) + delta)) (\<lambda>r1.
                         let tk_trans' = \<lparr>sub = (sub tk_trans)\<lparr>r := r1\<rparr>, tgt = Some a\<rparr>
                         in bnd (g_assign n tk tk_trans' st2) (\<lambda>st3.
                              Inr (st3, False, Some a))))))))))))
       else
         bnd (deref st n) (\<lambda>nd.
           let t_transition = find_alpha_transition nd t
           in Inr (st, tgt t_transition \<noteq> None, n))))"

subsection \<open>canonize\<close>

fun canonize_loop ::
  "nat \<Rightarrow> tree \<Rightarrow> string \<Rightarrow> nat option \<Rightarrow> mapped_substring \<Rightarrow> transition \<Rightarrow> error + reference_point" where
  "canonize_loop 0 st str s kp tk_trans = Inl OutOfFuel"
| "canonize_loop (Suc fuel) st str s kp tk_trans =
     bnd (chk (r (sub tk_trans) - l (sub tk_trans))) (\<lambda>delta.
     bnd (chk (r kp - l kp)) (\<lambda>len.
       if delta \<le> len then
         bnd (chk (1 + delta)) (\<lambda>d1.
         bnd (chk (l kp + d1)) (\<lambda>l1.
           let kp' = kp\<lparr>l := l1\<rparr>;
               s' = tgt tk_trans
           in if l kp' \<le> r kp'
              then bnd (str_at str (l kp')) (\<lambda>c.
                   bnd (deref st s') (\<lambda>nd.
                     canonize_loop fuel st str s' kp' (find_alpha_transition nd c)))
              else canonize_loop fuel st str s' kp' tk_trans))
       else Inr (s, (ref_str kp, l kp))))"

definition canonize :: "nat \<Rightarrow> tree \<Rightarrow> nat option \<Rightarrow> mapped_substring \<Rightarrow> error + reference_point" where
  "canonize fuel st s kp =
     (if r kp < l kp then Inr (s, (ref_str kp, l kp))
      else
        bnd (haystack_find st (ref_str kp)) (\<lambda>str.
        bnd (str_at str (l kp)) (\<lambda>c.
        bnd (deref st s) (\<lambda>nd.
          canonize_loop fuel st str s kp (find_alpha_transition nd c)))))"

subsection \<open>update\<close>

fun update_loop ::
  "nat \<Rightarrow> tree \<Rightarrow> string \<Rightarrow> mapped_substring \<Rightarrow> mapped_substring \<Rightarrow> reference_point \<Rightarrow>
   nat option \<Rightarrow> nat option \<Rightarrow> bool \<Rightarrow> error + (tree \<times> reference_point)" where
  "update_loop 0 st w ki ki1 sk oldr rr is_endpoint = Inl OutOfFuel"
| "update_loop (Suc fuel) st w ki ki1 sk oldr rr is_endpoint =
     (if \<not> is_endpoint then
        let (st1, r_prime) = new_node Leaf st in
        bnd (str_at w (r ki)) (\<lambda>c.
        bnd (g_insert rr c \<lparr>sub = \<lparr>ref_str = ref_str ki, l = r ki, r = INT_MAX\<rparr>,
                             tgt = Some r_prime\<rparr> st1) (\<lambda>st2.
        bnd (if Some root_addr \<noteq> oldr then set_suffix_link oldr rr st2 else Inr st2) (\<lambda>st3.
        bnd (deref st3 (fst sk)) (\<lambda>sk_node.
        bnd (canonize fuel st3 (suffix_link sk_node) ki1) (\<lambda>sk'.
          let ki1' = ki1\<lparr>l := snd (snd sk')\<rparr>;
              ki' = ki\<lparr>l := snd (snd sk')\<rparr>
          in bnd (str_at w (r ki')) (\<lambda>c'.
             bnd (test_and_split st3 (fst sk') ki1' c' w) (\<lambda>(st4, is_endpoint', rr').
               update_loop fuel st4 w ki' ki1' sk' rr rr' is_endpoint')))))))
      else
        bnd (if Some root_addr \<noteq> oldr then set_suffix_link oldr (fst sk) st else Inr st) (\<lambda>st1.
          Inr (st1, sk)))"

definition update ::
  "nat \<Rightarrow> tree \<Rightarrow> nat option \<Rightarrow> mapped_substring \<Rightarrow> error + (tree \<times> reference_point)" where
  "update fuel st s ki =
     bnd (haystack_find st (ref_str ki)) (\<lambda>w.
     bnd (chk (r ki - 1)) (\<lambda>r1.
       let sk = (s, (ref_str ki, l ki));
           ki1 = ki\<lparr>r := r1\<rparr>
       in bnd (str_at w (r ki)) (\<lambda>c.
          bnd (test_and_split st s ki1 c w) (\<lambda>(st1, is_endpoint, rr).
            update_loop fuel st1 w ki ki1 sk (Some root_addr) rr is_endpoint))))"

subsection \<open>get_starting_node\<close>

text \<open>The inner \<open>for\<close> loop over one edge ends in one of three ways: the new string runs
  out (\<open>s_runout\<close>), a symbol differs (the function returns), or the edge is consumed;
  \<open>Matched i\<close> carries the value of \<open>i\<close> the loop ends with.\<close>

datatype scan = Runout | Mismatch int | Matched int

lemma bnd_cong [fundef_cong]:
  "m = m' \<Longrightarrow> (\<And>x. m' = Inr x \<Longrightarrow> f x = f' x) \<Longrightarrow> bnd m f = bnd m' f'"
  by (cases m') (simp_all add: bnd_def)

function gsn_for :: "tree \<Rightarrow> string \<Rightarrow> int \<Rightarrow> transition \<Rightarrow> int \<Rightarrow> error + scan" where
  "gsn_for st s k t i =
     bnd (chk (r (sub t) - l (sub t))) (\<lambda>d.
       if i \<le> d then
         bnd (chk (k + i)) (\<lambda>ki.
           if ki \<ge> int (length s) then Inr Runout
           else
             bnd (str_at s ki) (\<lambda>a.
             bnd (haystack_find st (ref_str (sub t))) (\<lambda>ref.
             bnd (chk (l (sub t) + i)) (\<lambda>li.
             bnd (str_at ref li) (\<lambda>b.
               if a \<noteq> b then Inr (Mismatch i)
               else bnd (chk (i + 1)) (\<lambda>i'. gsn_for st s k t i'))))))
       else Inr (Matched i))"
  by pat_completeness auto
termination
  by (relation "measure (\<lambda>(st, s, k, t, i). nat (int (length s) - (k + i)))")
    (auto simp: chk_def split: if_splits)

lemma gsn_for_Matched: "gsn_for st s k t i = Inr (Matched j) \<Longrightarrow> i \<le> j"
proof (induction st s k t i rule: gsn_for.induct)
  case (1 st s k t i)
  from "1.prems" obtain d where d: "chk (r (sub t) - l (sub t)) = Inr d"
    by (auto simp: bnd_def split: sum.splits)
  show ?case
  proof (cases "i \<le> d")
    case False
    with "1.prems" d show ?thesis by (simp add: bnd_def)
  next
    case True
    with "1.prems" d obtain ki where ki: "chk (k + i) = Inr ki"
      by (auto simp: bnd_def split: sum.splits)
    with "1.prems" d True have ns: "\<not> ki \<ge> int (length s)"
      by (auto simp: bnd_def split: if_splits)
    from "1.prems" d True ki ns obtain a ref li b i' where
      a: "str_at s ki = Inr a" and rf: "haystack_find st (ref_str (sub t)) = Inr ref"
      and li: "chk (l (sub t) + i) = Inr li"
      and b: "str_at ref li = Inr b" and ab: "\<not> a \<noteq> b"
      and i': "chk (i + 1) = Inr i'"
      and rec: "gsn_for st s k t i' = Inr (Matched j)"
      by (auto simp: bnd_def split: sum.splits if_splits)
    from "1.IH" [OF d True ki ns a rf li b ab i' rec] i' show ?thesis
      by (simp add: chk_def split: if_splits)
  qed
qed

function gsn_loop :: "tree \<Rightarrow> string \<Rightarrow> reference_point \<Rightarrow> int \<Rightarrow> error + (int \<times> reference_point)" where
  "gsn_loop st s rp k =
     bnd (str_at s k) (\<lambda>c.
     bnd (deref st (fst rp)) (\<lambda>nd.
       let t = find_alpha_transition nd c in
       if tgt t \<noteq> None then
         bnd (gsn_for st s k t 1) (\<lambda>res.
           case res of
             Runout \<Rightarrow> Inr (INT_MAX, (fst rp, (fst (snd rp), INT_MAX)))
           | Mismatch i \<Rightarrow> bnd (chk (k + i)) (\<lambda>ki. Inr (ki, (fst rp, (fst (snd rp), k))))
           | Matched i \<Rightarrow> bnd (chk (k + i)) (\<lambda>k'. gsn_loop st s (tgt t, snd rp) k'))
       else Inr (k, rp)))"
  by pat_completeness auto
termination
proof (relation "measure (\<lambda>(st, s, rp, k). nat (int (length s) + 1 - k))", goal_cases)
  case 1
  show ?case by simp
next
  case (2 st s rp k c nd t res i k')
  from 2 have "1 \<le> i" using gsn_for_Matched by blast
  moreover from 2 have "k \<le> int (length s)"
    by (auto simp: str_at_def split: if_splits)
  moreover from 2 have "k' = k + i" by (simp add: chk_def split: if_splits)
  ultimately show ?case by simp
qed

definition get_starting_node :: "tree \<Rightarrow> string \<Rightarrow> reference_point \<Rightarrow> error + (int \<times> reference_point)" where
  \<comment> \<open>the result is the returned \<open>int\<close> and the final value of \<open>*r\<close>\<close>
  "get_starting_node st s rp = gsn_loop st s rp (snd (snd rp))"

subsection \<open>deploy_suffixes and addString\<close>

text \<open>The \<open>for\<close> loop of \<open>deploy_suffixes\<close> runs over the positions \<open>i, ..., s.length() - 1\<close>;
  its body does not change \<open>i\<close>.\<close>

fun deploy_for ::
  "nat \<Rightarrow> tree \<Rightarrow> int \<Rightarrow> reference_point \<Rightarrow> int list \<Rightarrow> error + (tree \<times> reference_point)" where
  "deploy_for fuel st sindex active_point [] = Inr (st, active_point)"
| "deploy_for fuel st sindex active_point (i # is) =
     (let ki = \<lparr>ref_str = sindex, l = snd (snd active_point), r = i\<rparr> in
      bnd (update fuel st (fst active_point) ki) (\<lambda>(st1, active_point1).
        let ki' = ki\<lparr>l := snd (snd active_point1)\<rparr> in
        bnd (canonize fuel st1 (fst active_point1) ki') (\<lambda>active_point2.
          deploy_for fuel st1 sindex active_point2 is)))"

definition deploy_suffixes :: "nat \<Rightarrow> tree \<Rightarrow> string \<Rightarrow> int \<Rightarrow> error + (tree \<times> int)" where
  "deploy_suffixes fuel st s sindex =
     bnd (get_starting_node st s (Some root_addr, (sindex, 0))) (\<lambda>(i, active_point).
       if INT_MAX = i then Inr (st, - 1)
       else bnd (deploy_for fuel st sindex active_point [i..int (length s) - 1]) (\<lambda>(st1, _).
              Inr (st1, sindex)))"

definition addString :: "nat \<Rightarrow> tree \<Rightarrow> string \<Rightarrow> error + (tree \<times> int)" where
  "addString fuel st new_string =
     bnd (chk (last_index st + 1)) (\<lambda>k.
       let st1 = st\<lparr>last_index := k\<rparr>;
           st2 = st1\<lparr>haystack := umap_insert (last_index st1) new_string (haystack st1)\<rparr>
       in bnd (deploy_suffixes fuel st2 new_string (last_index st2)) (\<lambda>(st3, d).
            if 0 > d
            then bnd (chk (last_index st3 - 1)) (\<lambda>k'.
                   Inr (st3\<lparr>haystack := umap_erase (last_index st3) (haystack st3),
                            last_index := k'\<rparr>, - 1))
            else Inr (st3, last_index st3)))"

subsection \<open>Base::clean\<close>

text \<open>The worklist loop of \<open>clean\<close>. \<open>freed\<close> lists the addresses given to \<open>delete\<close>, in
  order; reading \<open>current->g\<close> of a node that was deleted before is an error, and so is
  the \<open>delete\<close> of the sink, which is a member of \<open>Base\<close>. The transitions of a node are
  pushed in the order of the association list.\<close>

fun clean_loop :: "nat \<Rightarrow> tree \<Rightarrow> nat option list \<Rightarrow> nat list \<Rightarrow> error + nat list" where
  "clean_loop 0 st del_list freed = Inl OutOfFuel"
| "clean_loop (Suc fuel) st [] freed = Inr freed"
| "clean_loop (Suc fuel) st (current # del_list) freed =
     (case current of
        None \<Rightarrow> Inl NullDeref
      | Some a \<Rightarrow>
          if a \<in> set freed then Inl UseAfterFree
          else
            bnd (deref st current) (\<lambda>nd.
              let del_list' = del_list @ map (\<lambda>(c, t). tgt t) (g nd) in
              if root_addr \<noteq> a then
                (if a = sink_addr then Inl BadDelete
                 else clean_loop fuel st del_list' (freed @ [a]))
              else clean_loop fuel st del_list' freed))"

definition clean :: "nat \<Rightarrow> tree \<Rightarrow> error + nat list" where
  "clean fuel st = clean_loop fuel st [Some root_addr] []"

text \<open>A sequence of calls of \<open>addString\<close> on one tree, with the values they return.\<close>

fun addStrings :: "nat \<Rightarrow> tree \<Rightarrow> string list \<Rightarrow> error + (tree \<times> int list)" where
  "addStrings fuel st [] = Inr (st, [])"
| "addStrings fuel st (w # ws) =
     bnd (addString fuel st w) (\<lambda>(st1, d).
     bnd (addStrings fuel st1 ws) (\<lambda>(st2, ds). Inr (st2, d # ds)))"

subsection \<open>Reading the tree: paths from the root\<close>

text \<open>The symbols a substring reference stands for, resolved through the registry; an open
  right end (\<open>INT_MAX\<close>) is clamped to the end of the referenced string.\<close>

definition label :: "tree \<Rightarrow> mapped_substring \<Rightarrow> string" where
  "label st m =
     (case umap_find (haystack st) (ref_str m) of
        None \<Rightarrow> []
      | Some s \<Rightarrow> take (nat (min (r m + 1) (int (length s)) - l m)) (drop (nat (l m)) s))"

text \<open>\<open>spelled n st p u\<close>: the string \<open>u\<close> can be read from node \<open>p\<close> downwards along at most
  \<open>n\<close> stored transitions; it may end inside the last of them (the tree is an implicit
  suffix tree: the code appends no terminator).\<close>

fun spelled :: "nat \<Rightarrow> tree \<Rightarrow> nat option \<Rightarrow> string \<Rightarrow> bool" where
  "spelled 0 st p u = (u = [])"
| "spelled (Suc n) st p u =
     (u = [] \<or>
      (case deref st p of
         Inl _ \<Rightarrow> False
       | Inr nd \<Rightarrow>
           (case umap_find (g nd) (hd u) of
              None \<Rightarrow> False
            | Some t \<Rightarrow>
                let lab = label st (sub t) in
                if length u \<le> length lab then take (length u) lab = u
                else lab \<noteq> [] \<and> take (length lab) u = lab \<and>
                     spelled n st (tgt t) (drop (length lab) u))))"

definition occurs :: "tree \<Rightarrow> string \<Rightarrow> bool" where
  "occurs st u = spelled (length u) st (Some root_addr) u"

section \<open>The sink's lookup\<close>

text \<open>Claim C4, as stated: for every symbol the sink's lookup returns a transition to the root
  whose substring reference is empty (\<open>r < l\<close>). The target is the root, but the reference
  is \<open>(0, 0, 0)\<close>, one symbol long: \<open>canonize\<close> consumes one symbol when it passes the sink.\<close>

theorem sink_lookup_not_empty:
  "tgt (find_alpha_transition (nodes Base ! sink_addr) (CHR ''x'')) = Some root_addr \<and>
   \<not> r (sub (find_alpha_transition (nodes Base ! sink_addr) (CHR ''x'')))
       < l (sub (find_alpha_transition (nodes Base ! sink_addr) (CHR ''x'')))"
  by (simp add: Base_def sink_addr_def find_alpha_transition_def)

section \<open>The fast-forward walk\<close>

text \<open>Claim C3: when \<open>get_starting_node\<close> stops at a node without a transition for the next
  symbol, it returns the position \<open>k\<close> and leaves the reference point (node reached, \<open>k\<close>).
  In the tree of \<open>xyxz\<close> the walk for \<open>xa\<close> stops at node 4 (reached by \<open>x\<close>) and returns 1,
  but the offset of the reference point is still 0; \<open>update\<close>, resumed from it, looks the
  symbol \<open>x\<close> up in node 4, finds nothing and dereferences \<open>haystack.find(0)\<close>.\<close>

theorem get_starting_node_stale_offset:
  "bnd (addString 4 Base ''xyxz'') (\<lambda>(st, d).
     get_starting_node (st\<lparr>last_index := 2, haystack := umap_insert 2 ''xa'' (haystack st)\<rparr>)
       ''xa'' (Some root_addr, (2, 0)))
   = Inr (1, (Some 4, (2, 0))) \<and>
   addStrings 4 Base [''xyxz'', ''xa''] = Inl EndIterator"
  by code_simp

text \<open>Claim C2: \<open>addString\<close> fails exactly for the strings that the tree subsumes. In the
  tree of \<open>xyxz\<close> the string \<open>x\<close> is a path from the root that ends at node 4, and
  \<open>addString\<close> returns the fresh id 2 and keeps the registry entry.\<close>

theorem addString_subsumed_accepted:
  "bnd (addString 4 Base ''xyxz'') (\<lambda>(st, d).
     bnd (addString 4 st ''x'') (\<lambda>(st', d').
       Inr (d, occurs st ''x'', d', haystack st', nodes st' = nodes st)))
   = Inr (1, True, 2, [(1, ''xyxz''), (2, ''x'')], True)"
  by code_simp

section \<open>Suffixes of an inserted string\<close>

text \<open>Claim C1: every suffix of a string that \<open>addString\<close> accepted is a path from the root.
  After \<open>xxxba\<close>, the call for \<open>xxa\<close> returns the id 2 and leaves the store as it was; the
  string \<open>xxa\<close> cannot be read from the root, not even up to the inside of an edge.\<close>

theorem accepted_string_not_in_tree:
  "bnd (addString 4 Base ''xxxba'') (\<lambda>(st, d).
     bnd (addString 4 st ''xxa'') (\<lambda>(st', d').
       Inr (d, d', nodes st' = nodes st, occurs st' ''xxa'')))
   = Inr (1, 2, True, False)"
  by code_simp

section \<open>Basic facts about the operations\<close>

lemma bnd_simps [simp]: "bnd (Inr x) f = f x" "bnd (Inl e) f = Inl e"
  by (simp_all add: bnd_def)

lemma bnd_eq_Inr: "(bnd m f = Inr y) = (\<exists>x. m = Inr x \<and> f x = Inr y)"
  by (cases m) simp_all

lemma umap_find_assign: "umap_find (umap_assign k v m) k' = (if k' = k then Some v else umap_find m k')"
  by (induction m) (auto simp: umap_find_def)

lemma deref_Some: "deref st n = Inr nd \<Longrightarrow> \<exists>a. n = Some a \<and> a < length (nodes st) \<and> nd = nodes st ! a"
  by (auto simp: deref_def split: option.splits if_splits)

subsection \<open>What the engine leaves alone: the registry and the id counter\<close>

lemma g_insert_frame:
  "g_insert p c t st = Inr st' \<Longrightarrow>
     haystack st' = haystack st \<and> last_index st' = last_index st \<and> length (nodes st') = length (nodes st)"
  by (auto simp: g_insert_def set_g_def split: option.splits if_splits)

lemma g_assign_frame:
  "g_assign p c t st = Inr st' \<Longrightarrow>
     haystack st' = haystack st \<and> last_index st' = last_index st \<and> length (nodes st') = length (nodes st)"
  by (auto simp: g_assign_def set_g_def split: option.splits if_splits)

lemma set_suffix_link_frame:
  "set_suffix_link p q st = Inr st' \<Longrightarrow>
     haystack st' = haystack st \<and> last_index st' = last_index st \<and> length (nodes st') = length (nodes st)"
  by (auto simp: set_suffix_link_def split: option.splits if_splits)

lemma new_node_frame:
  "new_node kd st = (st', a) \<Longrightarrow>
     haystack st' = haystack st \<and> last_index st' = last_index st \<and>
     length (nodes st') = Suc (length (nodes st)) \<and> a = length (nodes st)"
  by (auto simp: new_node_def)

definition split_edge :: "tree \<Rightarrow> nat \<Rightarrow> char \<Rightarrow> char \<Rightarrow> int \<Rightarrow> tree" where
  "split_edge st a tk c delta =
     (let nd = nodes st ! a; e = find_alpha_transition nd tk in
      st\<lparr>nodes := (nodes st @
            [\<lparr>g = [(c, e\<lparr>sub := (sub e)\<lparr>l := l (sub e) + delta + 1\<rparr>\<rparr>)],
              suffix_link = None, kind = Node\<rparr>])
            [a := nd\<lparr>g := umap_assign tk
                \<lparr>sub = (sub e)\<lparr>r := l (sub e) + delta\<rparr>, tgt = Some (length (nodes st))\<rparr> (g nd)\<rparr>]\<rparr>)"

lemma chk_Inr: "(chk x = Inr y) = (is_int x \<and> y = x)"
  by (auto simp: chk_def)

lemma chk_ok: "is_int x \<Longrightarrow> chk x = Inr x"
  by (simp add: chk_def)

lemma chk_overflow: "\<not> is_int x \<Longrightarrow> chk x = Inl IntOverflow"
  by (simp add: chk_def)

lemma test_and_split_overflow:
  assumes "str_at w (l kp) = Inr tk" "\<not> is_int (r kp - l kp)"
  shows "test_and_split st n kp t w = Inl IntOverflow"
  using assms by (simp add: test_and_split_def chk_overflow)

lemma test_and_split_empty:
  assumes "str_at w (l kp) = Inr tk" "deref st n = Inr nd" "is_int (r kp - l kp)" "r kp < l kp"
  shows "test_and_split st n kp t w = Inr (st, tgt (find_alpha_transition nd t) \<noteq> None, n)"
  using assms by (simp add: test_and_split_def Let_def chk_ok)

lemma test_and_split_endpoint:
  assumes "str_at w (l kp) = Inr tk" "deref st n = Inr nd" "is_int (r kp - l kp)" "l kp \<le> r kp"
    and "haystack_find st (ref_str (sub (find_alpha_transition nd tk))) = Inr str"
    and "is_int (l (sub (find_alpha_transition nd tk)) + (r kp - l kp))"
    and "is_int (l (sub (find_alpha_transition nd tk)) + (r kp - l kp) + 1)"
    and "str_at str (l (sub (find_alpha_transition nd tk)) + (r kp - l kp) + 1) = Inr t"
  shows "test_and_split st n kp t w = Inr (st, True, n)"
  using assms by (simp add: test_and_split_def Let_def chk_ok)

lemma test_and_split_split:
  assumes "str_at w (l kp) = Inr tk" "deref st (Some a) = Inr nd" "is_int (r kp - l kp)" "l kp \<le> r kp"
    and "haystack_find st (ref_str (sub (find_alpha_transition nd tk))) = Inr str"
    and "is_int (l (sub (find_alpha_transition nd tk)) + (r kp - l kp))"
    and "is_int (l (sub (find_alpha_transition nd tk)) + (r kp - l kp) + 1)"
    and "str_at str (l (sub (find_alpha_transition nd tk)) + (r kp - l kp) + 1) = Inr c" "c \<noteq> t"
    and "is_int (r kp - l kp + 1)"
  shows "test_and_split st (Some a) kp t w =
           Inr (split_edge st a tk c (r kp - l kp), False, Some (length (nodes st)))"
proof -
  from assms(2) have a: "a < length (nodes st)" "nd = nodes st ! a"
    by (auto simp: deref_def split: if_splits)
  have e: "l (sub (find_alpha_transition nd tk)) + (r kp - l kp + 1)
             = l (sub (find_alpha_transition nd tk)) + (r kp - l kp) + 1"
    by simp
  from assms(7) have i: "is_int (l (sub (find_alpha_transition nd tk)) + (r kp - l kp + 1))"
    by (simp only: e)
  from assms a i show ?thesis
    by (simp add: test_and_split_def Let_def chk_ok new_node_def g_insert_def g_assign_def set_g_def
        umap_insert_def nth_append add.assoc split_edge_def)
qed

lemma test_and_split_Inr:
  assumes run: "test_and_split st n kp t w = Inr (st', b, p)"
  obtains
    (empty) tk nd where "str_at w (l kp) = Inr tk" "deref st n = Inr nd" "r kp < l kp"
      "st' = st" "b = (tgt (find_alpha_transition nd t) \<noteq> None)" "p = n"
  | (endpoint) tk nd str where "str_at w (l kp) = Inr tk" "deref st n = Inr nd" "l kp \<le> r kp"
      "haystack_find st (ref_str (sub (find_alpha_transition nd tk))) = Inr str"
      "str_at str (l (sub (find_alpha_transition nd tk)) + (r kp - l kp) + 1) = Inr t"
      "st' = st" "b" "p = n"
  | (split) tk nd str c a where "str_at w (l kp) = Inr tk" "n = Some a" "deref st n = Inr nd" "l kp \<le> r kp"
      "haystack_find st (ref_str (sub (find_alpha_transition nd tk))) = Inr str"
      "str_at str (l (sub (find_alpha_transition nd tk)) + (r kp - l kp) + 1) = Inr c" "c \<noteq> t"
      "st' = split_edge st a tk c (r kp - l kp)" "\<not> b" "p = Some (length (nodes st))"
proof (cases "str_at w (l kp)")
  case (Inl e)
  with run show ?thesis by (simp add: test_and_split_def)
next
  case tk: (Inr tk)
  show ?thesis
  proof (cases "is_int (r kp - l kp)")
    case False
    from test_and_split_overflow [OF tk False] run show ?thesis by simp
  next
    case d: True
    show ?thesis
    proof (cases "deref st n")
      case (Inl e)
      with run tk d show ?thesis by (simp add: test_and_split_def Let_def chk_ok split: if_splits)
    next
      case nd: (Inr nd)
      show ?thesis
      proof (cases "r kp < l kp")
        case True
        from test_and_split_empty [OF tk nd d True] run empty [OF tk nd True] show ?thesis by simp
      next
        case False
        then have ne: "l kp \<le> r kp" by simp
        let ?e = "find_alpha_transition nd tk"
        show ?thesis
        proof (cases "haystack_find st (ref_str (sub ?e))")
          case (Inl e)
          with run tk nd ne d show ?thesis by (simp add: test_and_split_def Let_def chk_ok)
        next
          case str: (Inr str)
          show ?thesis
          proof (cases "is_int (l (sub ?e) + (r kp - l kp))")
            case False
            with run tk nd ne d str show ?thesis
              by (simp add: test_and_split_def Let_def chk_ok chk_overflow)
          next
            case i0: True
            show ?thesis
            proof (cases "is_int (l (sub ?e) + (r kp - l kp) + 1)")
              case False
              with run tk nd ne d str i0 show ?thesis
                by (simp add: test_and_split_def Let_def chk_ok chk_overflow)
            next
              case i1: True
              show ?thesis
              proof (cases "str_at str (l (sub ?e) + (r kp - l kp) + 1)")
                case (Inl e)
                with run tk nd ne d str i0 i1 show ?thesis
                  by (simp add: test_and_split_def Let_def chk_ok)
              next
                case c: (Inr c)
                show ?thesis
                proof (cases "c = t")
                  case True
                  with test_and_split_endpoint [OF tk nd d ne str i0 i1] c run
                    endpoint [OF tk nd ne str]
                  show ?thesis by simp
                next
                  case False
                  from deref_Some [OF nd] obtain a where a: "n = Some a" by blast
                  show ?thesis
                  proof (cases "is_int (r kp - l kp + 1)")
                    case d1: True
                    from test_and_split_split [OF tk nd [unfolded a] d ne str i0 i1 c False d1] run a
                      split [OF tk a nd ne str c False]
                    show ?thesis by simp
                  next
                    case nd1: False
                    with run tk nd ne d str i0 i1 c \<open>c \<noteq> t\<close> show ?thesis
                      by (simp add: test_and_split_def Let_def chk_ok chk_overflow new_node_def)
                  qed
                qed
              qed
            qed
          qed
        qed
      qed
    qed
  qed
qed

lemma split_edge_frame:
  "haystack (split_edge st a tk c delta) = haystack st \<and>
   last_index (split_edge st a tk c delta) = last_index st \<and>
   length (nodes (split_edge st a tk c delta)) = Suc (length (nodes st))"
  by (simp add: split_edge_def Let_def)

lemma test_and_split_frame:
  assumes "test_and_split st n kp t w = Inr (st', b, p)"
  shows "haystack st' = haystack st \<and> last_index st' = last_index st \<and>
         length (nodes st) \<le> length (nodes st') \<and> length (nodes st') \<le> Suc (length (nodes st))"
  using assms by (cases rule: test_and_split_Inr) (simp_all add: split_edge_frame)

lemma update_loop_frame:
  "update_loop fuel st w ki ki1 sk oldr rr e = Inr (st', sk') \<Longrightarrow>
     haystack st' = haystack st \<and> last_index st' = last_index st \<and> length (nodes st) \<le> length (nodes st')"
proof (induction fuel arbitrary: st ki ki1 sk oldr rr e)
  case 0
  then show ?case by simp
next
  case (Suc fuel)
  show ?case
  proof (cases e)
    case True
    with Suc.prems show ?thesis
      by (auto simp: bnd_eq_Inr split: if_splits dest!: set_suffix_link_frame)
  next
    case False
    with Suc.prems obtain c st2 st3 sk_node sk1 c' st4 e' rr' where
      ins: "g_insert rr c \<lparr>sub = \<lparr>ref_str = ref_str ki, l = r ki, r = INT_MAX\<rparr>,
                            tgt = Some (length (nodes st))\<rparr>
              (st\<lparr>nodes := nodes st @ [\<lparr>g = [], suffix_link = None, kind = Leaf\<rparr>]\<rparr>) = Inr st2"
      and lnk: "(if Some root_addr \<noteq> oldr then set_suffix_link oldr rr st2 else Inr st2) = Inr st3"
      and tas: "test_and_split st3 (fst sk1) (ki1\<lparr>l := snd (snd sk1)\<rparr>) c' w = Inr (st4, e', rr')"
      and rec: "update_loop fuel st4 w (ki\<lparr>l := snd (snd sk1)\<rparr>) (ki1\<lparr>l := snd (snd sk1)\<rparr>) sk1 rr rr' e'
                  = Inr (st', sk')"
      by (auto simp: bnd_eq_Inr new_node_def Let_def)
    from g_insert_frame [OF ins] have 2: "haystack st2 = haystack st" "last_index st2 = last_index st"
      "length (nodes st2) = Suc (length (nodes st))" by simp_all
    from lnk have 3: "haystack st3 = haystack st2" "last_index st3 = last_index st2"
      "length (nodes st3) = length (nodes st2)"
      by (auto split: if_splits dest!: set_suffix_link_frame)
    from test_and_split_frame [OF tas] Suc.IH [OF rec] 2 3 show ?thesis by simp
  qed
qed

lemma update_frame:
  "update fuel st s ki = Inr (st', sk) \<Longrightarrow>
     haystack st' = haystack st \<and> last_index st' = last_index st \<and> length (nodes st) \<le> length (nodes st')"
  by (auto simp: update_def bnd_eq_Inr Let_def dest!: test_and_split_frame update_loop_frame)

lemma deploy_for_frame:
  "deploy_for fuel st sindex ap is = Inr (st', ap') \<Longrightarrow>
     haystack st' = haystack st \<and> last_index st' = last_index st \<and> length (nodes st) \<le> length (nodes st')"
proof (induction "is" arbitrary: st ap)
  case Nil
  then show ?case by simp
next
  case (Cons i "is")
  from Cons.prems obtain st1 ap1 ap2 where
    u: "update fuel st (fst ap) \<lparr>ref_str = sindex, l = snd (snd ap), r = i\<rparr> = Inr (st1, ap1)"
    and rec: "deploy_for fuel st1 sindex ap2 is = Inr (st', ap')"
    by (auto simp: bnd_eq_Inr Let_def)
  from update_frame [OF u] Cons.IH [OF rec] show ?case by simp
qed

lemma deploy_suffixes_result:
  assumes "deploy_suffixes fuel st s sindex = Inr (st', d)"
  shows "haystack st' = haystack st \<and> last_index st' = last_index st \<and>
         (d = - 1 \<and> st' = st \<and> (\<exists>rp. get_starting_node st s (Some root_addr, (sindex, 0)) = Inr (INT_MAX, rp))
          \<or> d = sindex)"
  using assms
  by (auto simp: deploy_suffixes_def bnd_eq_Inr split: if_splits dest!: deploy_for_frame)

definition registry_ok :: "tree \<Rightarrow> bool" where
  "registry_ok st = (0 \<le> last_index st \<and> map fst (haystack st) = [1..last_index st])"

lemma umap_insert_fresh:
  "k \<notin> fst ` set m \<Longrightarrow> umap_insert k v m = m @ [(k, v)]"
  by (simp add: umap_insert_def map_of_eq_None_iff [THEN iffD2])

lemma umap_erase_insert:
  assumes "k \<notin> fst ` set m"
  shows "umap_erase k (umap_insert k v m) = m"
proof -
  from assms have "\<forall>p \<in> set m. fst p \<noteq> k" by auto
  then have "filter (\<lambda>p. fst p \<noteq> k) m = m" by (simp add: filter_id_conv)
  with assms show ?thesis by (simp add: umap_insert_fresh umap_erase_def)
qed

lemma addString_result:
  assumes ok: "registry_ok st" and run: "addString fuel st w = Inr (st', d)"
  shows "(d = - 1 \<and> st' = st \<and>
            (\<exists>rp. get_starting_node
                     (st\<lparr>last_index := last_index st + 1,
                         haystack := umap_insert (last_index st + 1) w (haystack st)\<rparr>)
                     w (Some root_addr, (last_index st + 1, 0)) = Inr (INT_MAX, rp)))
         \<or> (d = last_index st + 1 \<and> last_index st' = d \<and> haystack st' = haystack st @ [(d, w)])"
proof -
  let ?k = "last_index st + 1"
  let ?st2 = "st\<lparr>last_index := ?k, haystack := umap_insert ?k w (haystack st)\<rparr>"
  from ok have fresh: "?k \<notin> fst ` set (haystack st)"
  proof -
    have "?k \<notin> set [1..last_index st]" by simp
    with ok show ?thesis by (simp add: registry_ok_def flip: set_map)
  qed
  then have ins: "umap_insert ?k w (haystack st) = haystack st @ [(?k, w)]"
    by (rule umap_insert_fresh)
  from run have "\<exists>st3 d3. deploy_suffixes fuel ?st2 w ?k = Inr (st3, d3) \<and>
      (d3 < 0 \<and> d = - 1 \<and>
         st' = st3\<lparr>haystack := umap_erase (last_index st3) (haystack st3),
                     last_index := last_index st3 - 1\<rparr>
       \<or> \<not> d3 < 0 \<and> st' = st3 \<and> d = last_index st3)"
    by (auto simp: addString_def Let_def bnd_eq_Inr chk_Inr split: if_splits)
  then obtain st3 d3 where dep: "deploy_suffixes fuel ?st2 w ?k = Inr (st3, d3)"
    and res: "d3 < 0 \<and> d = - 1 \<and>
         st' = st3\<lparr>haystack := umap_erase (last_index st3) (haystack st3),
                     last_index := last_index st3 - 1\<rparr>
       \<or> \<not> d3 < 0 \<and> st' = st3 \<and> d = last_index st3"
    by blast
  from deploy_suffixes_result [OF dep] have fr: "haystack st3 = haystack ?st2" "last_index st3 = ?k"
    and cases: "d3 = - 1 \<and> st3 = ?st2 \<and>
                  (\<exists>rp. get_starting_node ?st2 w (Some root_addr, (?k, 0)) = Inr (INT_MAX, rp))
                \<or> d3 = ?k"
    by auto
  from ok have k: "0 < ?k" by (simp add: registry_ok_def)
  from cases show ?thesis
  proof
    assume f: "d3 = - 1 \<and> st3 = ?st2 \<and>
                  (\<exists>rp. get_starting_node ?st2 w (Some root_addr, (?k, 0)) = Inr (INT_MAX, rp))"
    with res have "d = - 1" and "st' = ?st2\<lparr>haystack := umap_erase ?k (umap_insert ?k w (haystack st)),
                             last_index := ?k - 1\<rparr>"
      by auto
    with umap_erase_insert [OF fresh] f show ?thesis by simp
  next
    assume "d3 = ?k"
    with k res fr ins show ?thesis by auto
  qed
qed

lemma addString_registry_ok:
  assumes ok: "registry_ok st" and run: "addString fuel st w = Inr (st', d)"
  shows "registry_ok st'"
  using addString_result [OF ok run] ok
  by (auto simp: registry_ok_def upto_rec2)

lemma registry_ok_Base: "registry_ok Base"
  by (simp add: registry_ok_def Base_def)

lemma addStrings_ids:
  "registry_ok st0 \<Longrightarrow> addStrings fuel st0 ws = Inr (st, ds) \<Longrightarrow>
     registry_ok st \<and> last_index st0 \<le> last_index st \<and>
     filter (\<lambda>x. x \<noteq> - 1) ds = [last_index st0 + 1..last_index st]"
proof (induction ws arbitrary: st0 ds)
  case Nil
  then show ?case by simp
next
  case (Cons w ws)
  from Cons.prems(2) obtain st1 d ds' where
    a: "addString fuel st0 w = Inr (st1, d)" and rest: "addStrings fuel st1 ws = Inr (st, ds')"
    and ds: "ds = d # ds'"
    by (auto simp: bnd_eq_Inr)
  from addString_registry_ok [OF Cons.prems(1) a] have ok1: "registry_ok st1" .
  from Cons.IH [OF ok1 rest] have ih: "registry_ok st" "last_index st1 \<le> last_index st"
    "filter (\<lambda>x. x \<noteq> - 1) ds' = [last_index st1 + 1..last_index st]" by simp_all
  from addString_result [OF Cons.prems(1) a]
  show ?case
  proof
    assume "d = - 1 \<and> st1 = st0 \<and> (\<exists>rp. get_starting_node
                     (st0\<lparr>last_index := last_index st0 + 1,
                         haystack := umap_insert (last_index st0 + 1) w (haystack st0)\<rparr>)
                     w (Some root_addr, (last_index st0 + 1, 0)) = Inr (INT_MAX, rp))"
    with ih ds show ?thesis by simp
  next
    assume s: "d = last_index st0 + 1 \<and> last_index st1 = d \<and> haystack st1 = haystack st0 @ [(d, w)]"
    with Cons.prems(1) have "d \<noteq> - 1" by (simp add: registry_ok_def)
    moreover from s ih have "[last_index st0 + 1..last_index st] = d # [last_index st1 + 1..last_index st]"
      by (simp add: upto_rec1)
    ultimately show ?thesis using ih ds s by simp
  qed
qed

lemma umap_find_Cons: "umap_find ((k, v) # m) k' = (if k' = k then Some v else umap_find m k')"
  by (simp add: umap_find_def)

lemma split_edge_other:
  assumes "a < length (nodes st)" "a' < length (nodes st)"
  shows "suffix_link (nodes (split_edge st a tk c delta) ! a') = suffix_link (nodes st ! a') \<and>
         kind (nodes (split_edge st a tk c delta) ! a') = kind (nodes st ! a') \<and>
         ((a', k) \<noteq> (a, tk) \<longrightarrow>
            umap_find (g (nodes (split_edge st a tk c delta) ! a')) k = umap_find (g (nodes st ! a')) k)"
  using assms
  by (auto simp: split_edge_def Let_def nth_list_update nth_append umap_find_assign)

lemma map_fst_umap_assign:
  "k \<in> fst ` set m \<Longrightarrow> map fst (umap_assign k v m) = map fst m"
  by (induction m) auto

lemma umap_find_Nil: "umap_find [] k = None"
  by (simp add: umap_find_def)

lemma find_alpha_transition_key:
  assumes "kind nd \<noteq> SinkNode" "tgt (find_alpha_transition nd c) \<noteq> None"
  shows "c \<in> fst ` set (g nd)"
proof (cases "umap_find (g nd) c")
  case None
  with assms show ?thesis by (simp add: find_alpha_transition_def)
next
  case (Some e)
  then show ?thesis
    by (auto simp: umap_find_def dest!: map_of_SomeD intro: rev_image_eqI)
qed

text \<open>Claim C5: the three cases of \<open>test_and_split\<close>, and what a call can change at most.
  The first conjunct is the case the code leaves undefined: \<open>kp.r - kp.l\<close> is not an
  \<open>int\<close>. In the case of a split, \<open>e1\<close> is the original edge cut to \<open>delta + 1\<close> symbols,
  which now leads to the new node \<open>m\<close>, and \<open>e2\<close> is its tail with the original target,
  the only transition of \<open>m\<close>; the node \<open>n\<close> keeps its keys and its other transitions.\<close>

theorem test_and_split_cases:
  assumes tk: "str_at w (l kp) = Inr tk" and nd: "deref st (Some a) = Inr nd"
  shows "let delta = r kp - l kp; e = find_alpha_transition nd tk; m = length (nodes st) in
    (\<not> is_int delta \<longrightarrow> test_and_split st (Some a) kp t w = Inl IntOverflow) \<and>
    (is_int delta \<and> delta < 0 \<longrightarrow>
       test_and_split st (Some a) kp t w =
         Inr (st, tgt (find_alpha_transition nd t) \<noteq> None, Some a) \<and>
       (kind nd \<noteq> SinkNode \<longrightarrow> (\<forall>k e'. umap_find (g nd) k = Some e' \<longrightarrow> tgt e' \<noteq> None) \<longrightarrow>
          (tgt (find_alpha_transition nd t) \<noteq> None) = (umap_find (g nd) t \<noteq> None))) \<and>
    (is_int delta \<and> 0 \<le> delta \<longrightarrow>
       (\<forall>str c. haystack_find st (ref_str (sub e)) = Inr str \<longrightarrow>
                is_int (l (sub e) + delta) \<longrightarrow> is_int (l (sub e) + delta + 1) \<longrightarrow>
                str_at str (l (sub e) + delta + 1) = Inr c \<longrightarrow>
          (c = t \<longrightarrow> test_and_split st (Some a) kp t w = Inr (st, True, Some a)) \<and>
          (c \<noteq> t \<longrightarrow> is_int (delta + 1) \<longrightarrow>
             (let e1 = \<lparr>sub = (sub e)\<lparr>r := l (sub e) + delta\<rparr>, tgt = Some m\<rparr>;
                  e2 = e\<lparr>sub := (sub e)\<lparr>l := l (sub e) + delta + 1\<rparr>\<rparr>;
                  st' = st\<lparr>nodes := (nodes st @ [\<lparr>g = [(c, e2)], suffix_link = None, kind = Node\<rparr>])
                             [a := nd\<lparr>g := umap_assign tk e1 (g nd)\<rparr>]\<rparr>
              in test_and_split st (Some a) kp t w = Inr (st', False, Some m) \<and>
                 umap_find (g (nodes st' ! a)) tk = Some e1 \<and>
                 (\<forall>k. k \<noteq> tk \<longrightarrow> umap_find (g (nodes st' ! a)) k = umap_find (g nd) k) \<and>
                 (kind nd \<noteq> SinkNode \<and> tgt e \<noteq> None \<longrightarrow>
                    map fst (g (nodes st' ! a)) = map fst (g nd)) \<and>
                 umap_find (g (nodes st' ! m)) c = Some e2 \<and>
                 (\<forall>k. k \<noteq> c \<longrightarrow> umap_find (g (nodes st' ! m)) k = None) \<and>
                 tgt e2 = tgt e \<and> r (sub e2) = r (sub e))))) \<and>
    (\<forall>st' b p. test_and_split st (Some a) kp t w = Inr (st', b, p) \<longrightarrow>
       length (nodes st) \<le> length (nodes st') \<and> length (nodes st') \<le> length (nodes st) + 1 \<and>
       haystack st' = haystack st \<and> last_index st' = last_index st \<and>
       (\<forall>a' k. a' < length (nodes st) \<longrightarrow>
          suffix_link (nodes st' ! a') = suffix_link (nodes st ! a') \<and>
          kind (nodes st' ! a') = kind (nodes st ! a') \<and>
          ((a', k) \<noteq> (a, tk) \<longrightarrow>
             umap_find (g (nodes st' ! a')) k = umap_find (g (nodes st ! a')) k)))"
proof -
  let ?delta = "r kp - l kp"
  let ?e = "find_alpha_transition nd tk"
  let ?m = "length (nodes st)"
  let ?e1 = "\<lparr>sub = (sub ?e)\<lparr>r := l (sub ?e) + ?delta\<rparr>, tgt = Some ?m\<rparr>"
  let ?e2 = "\<lambda>c::char. ?e\<lparr>sub := (sub ?e)\<lparr>l := l (sub ?e) + ?delta + 1\<rparr>\<rparr>"
  let ?st' = "\<lambda>c. st\<lparr>nodes := (nodes st @ [\<lparr>g = [(c, ?e2 c)], suffix_link = None, kind = Node\<rparr>])
                             [a := nd\<lparr>g := umap_assign tk ?e1 (g nd)\<rparr>]\<rparr>"
  from nd have a: "a < length (nodes st)" "nd = nodes st ! a"
    by (auto simp: deref_def split: if_splits)
  have c0: "\<not> is_int ?delta \<longrightarrow> test_and_split st (Some a) kp t w = Inl IntOverflow"
    using test_and_split_overflow [OF tk] by blast
  have empty: "test_and_split st (Some a) kp t w =
         Inr (st, tgt (find_alpha_transition nd t) \<noteq> None, Some a)" if "is_int ?delta" "?delta < 0"
    using test_and_split_empty [OF tk nd that(1)] that(2) by simp
  have has: "(tgt (find_alpha_transition nd t) \<noteq> None) = (umap_find (g nd) t \<noteq> None)"
    if "kind nd \<noteq> SinkNode" "\<forall>k e'. umap_find (g nd) k = Some e' \<longrightarrow> tgt e' \<noteq> None"
    using that by (auto simp: find_alpha_transition_def split: option.splits)
  have c1: "is_int ?delta \<and> ?delta < 0 \<longrightarrow>
       test_and_split st (Some a) kp t w =
         Inr (st, tgt (find_alpha_transition nd t) \<noteq> None, Some a) \<and>
       (kind nd \<noteq> SinkNode \<longrightarrow> (\<forall>k e'. umap_find (g nd) k = Some e' \<longrightarrow> tgt e' \<noteq> None) \<longrightarrow>
          (tgt (find_alpha_transition nd t) \<noteq> None) = (umap_find (g nd) t \<noteq> None))"
    using empty has by blast
  have ep: "test_and_split st (Some a) kp t w = Inr (st, True, Some a)"
    if "is_int ?delta" "0 \<le> ?delta" "haystack_find st (ref_str (sub ?e)) = Inr str"
      "is_int (l (sub ?e) + ?delta)" "is_int (l (sub ?e) + ?delta + 1)"
      "str_at str (l (sub ?e) + ?delta + 1) = Inr c" "c = t" for str c
    using test_and_split_endpoint [OF tk nd that(1) _ that(3,4,5)] that(2,6,7) by simp
  have sp: "test_and_split st (Some a) kp t w = Inr (?st' c, False, Some ?m)"
    if "is_int ?delta" "0 \<le> ?delta" "haystack_find st (ref_str (sub ?e)) = Inr str"
      "is_int (l (sub ?e) + ?delta)" "is_int (l (sub ?e) + ?delta + 1)"
      "str_at str (l (sub ?e) + ?delta + 1) = Inr c" "c \<noteq> t" "is_int (?delta + 1)" for str c
    using test_and_split_split [OF tk nd that(1) _ that(3,4,5,6,7,8)] that(2) a
    by (simp add: split_edge_def Let_def)
  have keys: "map fst (g (nodes (?st' c) ! a)) = map fst (g nd)"
    if "kind nd \<noteq> SinkNode \<and> tgt ?e \<noteq> None" for c
    using find_alpha_transition_key [of nd tk] that a(1) by (simp add: map_fst_umap_assign)
  have lk: "umap_find (g (nodes (?st' c) ! a)) tk = Some ?e1 \<and>
            (\<forall>k. k \<noteq> tk \<longrightarrow> umap_find (g (nodes (?st' c) ! a)) k = umap_find (g nd) k) \<and>
            (kind nd \<noteq> SinkNode \<and> tgt ?e \<noteq> None \<longrightarrow>
               map fst (g (nodes (?st' c) ! a)) = map fst (g nd)) \<and>
            umap_find (g (nodes (?st' c) ! ?m)) c = Some (?e2 c) \<and>
            (\<forall>k. k \<noteq> c \<longrightarrow> umap_find (g (nodes (?st' c) ! ?m)) k = None) \<and>
            tgt (?e2 c) = tgt ?e \<and> r (sub (?e2 c)) = r (sub ?e)" for c
    using keys [of c] a(1)
    by (simp add: nth_list_update nth_append umap_find_assign umap_find_Cons umap_find_Nil)
  have c2: "is_int ?delta \<and> 0 \<le> ?delta \<longrightarrow>
       (\<forall>str c. haystack_find st (ref_str (sub ?e)) = Inr str \<longrightarrow>
                is_int (l (sub ?e) + ?delta) \<longrightarrow> is_int (l (sub ?e) + ?delta + 1) \<longrightarrow>
                str_at str (l (sub ?e) + ?delta + 1) = Inr c \<longrightarrow>
          (c = t \<longrightarrow> test_and_split st (Some a) kp t w = Inr (st, True, Some a)) \<and>
          (c \<noteq> t \<longrightarrow> is_int (?delta + 1) \<longrightarrow>
             test_and_split st (Some a) kp t w = Inr (?st' c, False, Some ?m) \<and>
             umap_find (g (nodes (?st' c) ! a)) tk = Some ?e1 \<and>
             (\<forall>k. k \<noteq> tk \<longrightarrow> umap_find (g (nodes (?st' c) ! a)) k = umap_find (g nd) k) \<and>
             (kind nd \<noteq> SinkNode \<and> tgt ?e \<noteq> None \<longrightarrow>
                map fst (g (nodes (?st' c) ! a)) = map fst (g nd)) \<and>
             umap_find (g (nodes (?st' c) ! ?m)) c = Some (?e2 c) \<and>
             (\<forall>k. k \<noteq> c \<longrightarrow> umap_find (g (nodes (?st' c) ! ?m)) k = None) \<and>
             tgt (?e2 c) = tgt ?e \<and> r (sub (?e2 c)) = r (sub ?e)))"
    using ep sp lk by blast
  have fr: "length (nodes st) \<le> length (nodes st') \<and> length (nodes st') \<le> length (nodes st) + 1 \<and>
       haystack st' = haystack st \<and> last_index st' = last_index st \<and>
       (\<forall>a' k. a' < length (nodes st) \<longrightarrow>
          suffix_link (nodes st' ! a') = suffix_link (nodes st ! a') \<and>
          kind (nodes st' ! a') = kind (nodes st ! a') \<and>
          ((a', k) \<noteq> (a, tk) \<longrightarrow>
             umap_find (g (nodes st' ! a')) k = umap_find (g (nodes st ! a')) k))"
    if "test_and_split st (Some a) kp t w = Inr (st', b, p)" for st' b p
    using that
  proof (cases rule: test_and_split_Inr)
    case (split tk' nd' str c a')
    with tk have "tk' = tk" "a' = a" by simp_all
    with split a split_edge_other [OF a(1), of _ tk c "r kp - l kp"] show ?thesis
      by (simp add: split_edge_frame)
  qed simp_all
  have c3: "\<forall>st' b p. test_and_split st (Some a) kp t w = Inr (st', b, p) \<longrightarrow>
       length (nodes st) \<le> length (nodes st') \<and> length (nodes st') \<le> length (nodes st) + 1 \<and>
       haystack st' = haystack st \<and> last_index st' = last_index st \<and>
       (\<forall>a' k. a' < length (nodes st) \<longrightarrow>
          suffix_link (nodes st' ! a') = suffix_link (nodes st ! a') \<and>
          kind (nodes st' ! a') = kind (nodes st ! a') \<and>
          ((a', k) \<noteq> (a, tk) \<longrightarrow>
             umap_find (g (nodes st' ! a')) k = umap_find (g (nodes st ! a')) k))"
    by (intro allI impI) (rule fr)
  from c0 c1 c2 c3 show ?thesis
    unfolding Let_def by (intro conjI)
qed

definition tree_xyxz :: tree where
  "tree_xyxz = \<lparr>nodes =
      [\<lparr>g = [], suffix_link = Some 1, kind = SinkNode\<rparr>,
       \<lparr>g = [(CHR ''x'', \<lparr>sub = \<lparr>ref_str = 1, l = 0, r = 0\<rparr>, tgt = Some 4\<rparr>),
             (CHR ''y'', \<lparr>sub = \<lparr>ref_str = 1, l = 1, r = 2147483647\<rparr>, tgt = Some 3\<rparr>),
             (CHR ''z'', \<lparr>sub = \<lparr>ref_str = 1, l = 3, r = 2147483647\<rparr>, tgt = Some 6\<rparr>)],
          suffix_link = Some 0, kind = Node\<rparr>,
       \<lparr>g = [], suffix_link = None, kind = Leaf\<rparr>,
       \<lparr>g = [], suffix_link = None, kind = Leaf\<rparr>,
       \<lparr>g = [(CHR ''y'', \<lparr>sub = \<lparr>ref_str = 1, l = 1, r = 2147483647\<rparr>, tgt = Some 2\<rparr>),
             (CHR ''z'', \<lparr>sub = \<lparr>ref_str = 1, l = 3, r = 2147483647\<rparr>, tgt = Some 5\<rparr>)],
          suffix_link = Some 1, kind = Node\<rparr>,
       \<lparr>g = [], suffix_link = None, kind = Leaf\<rparr>,
       \<lparr>g = [], suffix_link = None, kind = Leaf\<rparr>],
     haystack = [(1, ''xyxz'')], last_index = 1\<rparr>"

lemma tree_xyxz: "addString 4 Base ''xyxz'' = Inr (tree_xyxz, 1)"
  by code_simp

text \<open>In the tree of \<open>xyxz\<close>, the edge \<open>yxz\<close> of the root, its second transition, is split
  after \<open>y\<close> for the string \<open>ya\<close>.\<close>

theorem test_and_split_cases_witness:
  "str_at ''ya'' 0 = Inr (CHR ''y'') \<and>
   deref tree_xyxz (Some 1) = Inr (nodes tree_xyxz ! 1) \<and>
   test_and_split tree_xyxz (Some 1) \<lparr>ref_str = 2, l = 0, r = 0\<rparr> (CHR ''a'') ''ya'' =
     Inr (tree_xyxz\<lparr>nodes :=
       [\<lparr>g = [], suffix_link = Some 1, kind = SinkNode\<rparr>,
        \<lparr>g = [(CHR ''x'', \<lparr>sub = \<lparr>ref_str = 1, l = 0, r = 0\<rparr>, tgt = Some 4\<rparr>),
              (CHR ''y'', \<lparr>sub = \<lparr>ref_str = 1, l = 1, r = 1\<rparr>, tgt = Some 7\<rparr>),
              (CHR ''z'', \<lparr>sub = \<lparr>ref_str = 1, l = 3, r = 2147483647\<rparr>, tgt = Some 6\<rparr>)],
           suffix_link = Some 0, kind = Node\<rparr>,
        \<lparr>g = [], suffix_link = None, kind = Leaf\<rparr>,
        \<lparr>g = [], suffix_link = None, kind = Leaf\<rparr>,
        \<lparr>g = [(CHR ''y'', \<lparr>sub = \<lparr>ref_str = 1, l = 1, r = 2147483647\<rparr>, tgt = Some 2\<rparr>),
              (CHR ''z'', \<lparr>sub = \<lparr>ref_str = 1, l = 3, r = 2147483647\<rparr>, tgt = Some 5\<rparr>)],
           suffix_link = Some 1, kind = Node\<rparr>,
        \<lparr>g = [], suffix_link = None, kind = Leaf\<rparr>,
        \<lparr>g = [], suffix_link = None, kind = Leaf\<rparr>,
        \<lparr>g = [(CHR ''x'', \<lparr>sub = \<lparr>ref_str = 1, l = 2, r = 2147483647\<rparr>, tgt = Some 3\<rparr>)],
           suffix_link = None, kind = Node\<rparr>]\<rparr>, False, Some 7)"
proof -
  have h1: "str_at ''ya'' (l \<lparr>ref_str = 2, l = 0, r = 0\<rparr>) = Inr (CHR ''y'')"
    by (simp add: str_at_def)
  have h2: "deref tree_xyxz (Some 1) = Inr (nodes tree_xyxz ! 1)"
    by (simp add: deref_def tree_xyxz_def)
  have h3: "haystack_find tree_xyxz 1 = Inr ''xyxz''"
    by (simp add: haystack_find_def umap_find_def tree_xyxz_def)
  have h4: "str_at ''xyxz'' 2 = Inr (CHR ''x'')"
    by (simp add: str_at_def)
  from test_and_split_cases [OF h1 h2, of "CHR ''a''"] h1 h2 h3 h4 show ?thesis
    by (simp add: Let_def tree_xyxz_def find_alpha_transition_def umap_find_def is_int_def
        INT_MIN_def INT_MAX_def)
qed

definition tree_xx :: tree where
  "tree_xx = \<lparr>nodes =
      [\<lparr>g = [], suffix_link = Some 1, kind = SinkNode\<rparr>,
       \<lparr>g = [(CHR ''x'', \<lparr>sub = \<lparr>ref_str = 1, l = 0, r = 2147483647\<rparr>, tgt = Some 2\<rparr>)],
          suffix_link = Some 0, kind = Node\<rparr>,
       \<lparr>g = [], suffix_link = None, kind = Leaf\<rparr>],
     haystack = [(1, ''xx'')], last_index = 1\<rparr>"

lemma tree_xx: "addString 2 Base ''xx'' = Inr (tree_xx, 1)"
  by code_simp

text \<open>Claim C10: a call of \<open>addString\<close> that returns -1 leaves the whole structure as it was;
  the walk of \<open>get_starting_node\<close> returned the sentinel.\<close>

theorem failed_addString_changes_nothing:
  assumes "addStrings fuel Base ws = Inr (st, ds)" and "addString fuel' st w = Inr (st', - 1)"
  shows "st' = st \<and>
         (\<exists>rp. get_starting_node
                  (st\<lparr>last_index := last_index st + 1,
                      haystack := umap_insert (last_index st + 1) w (haystack st)\<rparr>)
                  w (Some root_addr, (last_index st + 1, 0)) = Inr (INT_MAX, rp))"
proof -
  from addStrings_ids [OF registry_ok_Base assms(1)] have ok: "registry_ok st" by simp
  from addString_result [OF ok assms(2)] ok show ?thesis
    by (auto simp: registry_ok_def)
qed

theorem failed_addString_changes_nothing_witness:
  "addStrings 2 Base [''xx''] = Inr (tree_xx, [1]) \<and>
   addString 2 tree_xx ''x'' = Inr (tree_xx, - 1)"
proof -
  have h1: "addStrings 2 Base [''xx''] = Inr (tree_xx, [1])" by code_simp
  have h2: "addString 2 tree_xx ''x'' = Inr (tree_xx, - 1)" by code_simp
  from failed_addString_changes_nothing [OF h1 h2] h1 h2 show ?thesis by simp
qed

section \<open>canonize\<close>

text \<open>\<open>walk st str kr s k s' k'\<close>: hops of the skip/count walk lead from node \<open>s\<close> at offset
  \<open>k\<close> of \<open>str\<close> to node \<open>s'\<close> at offset \<open>k'\<close>. One hop follows the transition that the
  node has for the symbol at the offset, over its whole stored length, and is taken only
  while the rest \<open>k..kr\<close> of the substring is at least that long.\<close>

inductive walk :: "tree \<Rightarrow> string \<Rightarrow> int \<Rightarrow> nat option \<Rightarrow> int \<Rightarrow> nat option \<Rightarrow> int \<Rightarrow> bool"
  for st :: tree and str :: string and kr :: int where
  walk_refl: "walk st str kr s k s k"
| walk_step:
    "str_at str k = Inr c \<Longrightarrow> deref st s = Inr nd \<Longrightarrow> t = find_alpha_transition nd c \<Longrightarrow>
     0 \<le> r (sub t) - l (sub t) \<Longrightarrow> r (sub t) - l (sub t) \<le> kr - k \<Longrightarrow>
     walk st str kr (tgt t) (k + (1 + (r (sub t) - l (sub t)))) s' k' \<Longrightarrow>
     walk st str kr s k s' k'"

text \<open>\<open>along st str s kl kr\<close>: the substring \<open>kl..kr\<close> of \<open>str\<close> lies along transitions below
  \<open>s\<close>: it is empty, or it ends inside the transition for its first symbol, or that
  transition is non-empty, no longer than the substring, and the rest lies below its
  target. The stored length \<open>r - l\<close> of each transition on the way is an \<open>int\<close>.\<close>

inductive along :: "tree \<Rightarrow> string \<Rightarrow> nat option \<Rightarrow> int \<Rightarrow> int \<Rightarrow> bool"
  for st :: tree and str :: string where
  along_empty: "kr < kl \<Longrightarrow> along st str s kl kr"
| along_inside:
    "kl \<le> kr \<Longrightarrow> str_at str kl = Inr c \<Longrightarrow> deref st s = Inr nd \<Longrightarrow>
     t = find_alpha_transition nd c \<Longrightarrow> is_int (r (sub t) - l (sub t)) \<Longrightarrow>
     kr - kl < r (sub t) - l (sub t) \<Longrightarrow>
     along st str s kl kr"
| along_hop:
    "kl \<le> kr \<Longrightarrow> str_at str kl = Inr c \<Longrightarrow> deref st s = Inr nd \<Longrightarrow>
     t = find_alpha_transition nd c \<Longrightarrow> is_int (r (sub t) - l (sub t)) \<Longrightarrow>
     0 \<le> r (sub t) - l (sub t) \<Longrightarrow> r (sub t) - l (sub t) \<le> kr - kl \<Longrightarrow>
     along st str (tgt t) (kl + (1 + (r (sub t) - l (sub t)))) kr \<Longrightarrow>
     along st str s kl kr"

text \<open>Two readings of "canonical" for the reference point \<open>(s, kl..kr)\<close>: the substring is
  empty or strictly shorter than the transition of \<open>s\<close> for its first symbol. The length of
  the transition is either the one that \<open>canonize\<close> computes, \<open>r - l + 1\<close> on the stored
  reference, where the right end of a leaf edge is \<open>INT_MAX\<close>; or, in the words of the
  specification, the length of the edge label, where an open right end stands for the end
  of the referenced string.\<close>

definition canonical_stored :: "tree \<Rightarrow> string \<Rightarrow> nat option \<Rightarrow> int \<Rightarrow> int \<Rightarrow> bool" where
  "canonical_stored st str s kl kr =
     (kr < kl \<or>
      (case str_at str kl of
         Inl _ \<Rightarrow> False
       | Inr c \<Rightarrow>
           (case deref st s of
              Inl _ \<Rightarrow> False
            | Inr nd \<Rightarrow>
                kr - kl + 1 <
                  r (sub (find_alpha_transition nd c)) - l (sub (find_alpha_transition nd c)) + 1)))"

definition canonical_label :: "tree \<Rightarrow> string \<Rightarrow> nat option \<Rightarrow> int \<Rightarrow> int \<Rightarrow> bool" where
  "canonical_label st str s kl kr =
     (kr < kl \<or>
      (case str_at str kl of
         Inl _ \<Rightarrow> False
       | Inr c \<Rightarrow>
           (case deref st s of
              Inl _ \<Rightarrow> False
            | Inr nd \<Rightarrow>
                kr - kl + 1 < int (length (label st (sub (find_alpha_transition nd c)))))))"

lemma along_nonempty:
  assumes "along st str s kl kr" "kl \<le> kr"
  shows "\<exists>c nd. str_at str kl = Inr c \<and> deref st s = Inr nd"
  using assms by (cases rule: along.cases) auto

lemma str_at_nonneg: "str_at str k = Inr c \<Longrightarrow> 0 \<le> k"
  by (auto simp: str_at_def split: if_splits)

lemma canonize_loop_exit:
  assumes "is_int (r (sub tk) - l (sub tk))" "is_int (r kp - l kp)"
    and "r kp - l kp < r (sub tk) - l (sub tk)"
  shows "canonize_loop (Suc n) st str s kp tk = Inr (s, (ref_str kp, l kp))"
  using assms by (simp add: chk_ok)

lemma canonize_loop_hop:
  assumes "is_int (r (sub tk) - l (sub tk))" "is_int (r kp - l kp)"
    and "r (sub tk) - l (sub tk) \<le> r kp - l kp"
    and "is_int (1 + (r (sub tk) - l (sub tk)))" "is_int (l kp + (1 + (r (sub tk) - l (sub tk))))"
  shows "canonize_loop (Suc n) st str s kp tk =
          (let kp' = kp\<lparr>l := l kp + (1 + (r (sub tk) - l (sub tk)))\<rparr> in
           if l kp' \<le> r kp'
           then bnd (str_at str (l kp')) (\<lambda>c.
                bnd (deref st (tgt tk)) (\<lambda>nd.
                  canonize_loop n st str (tgt tk) kp' (find_alpha_transition nd c)))
           else canonize_loop n st str (tgt tk) kp' tk)"
  using assms by (simp add: chk_ok Let_def)

lemma canonize_loop_along:
  assumes "along st str s kl kr"
    and "l kp = kl" "r kp = kr"
    and "kl \<le> kr \<longrightarrow> (\<exists>c nd. str_at str kl = Inr c \<and> deref st s = Inr nd \<and> tk = find_alpha_transition nd c)"
    and "kr < kl \<longrightarrow> 0 \<le> r (sub tk) - l (sub tk) \<and> is_int (r (sub tk) - l (sub tk)) \<and> is_int (kr - kl)"
    and "kr < INT_MAX"
    and "nat (kr - kl + 1) < fuel"
  shows "\<exists>s' k'. canonize_loop fuel st str s kp tk = Inr (s', (ref_str kp, k')) \<and>
           walk st str kr s kl s' k' \<and> canonical_stored st str s' k' kr"
  using assms
proof (induction arbitrary: kp tk fuel rule: along.induct)
  case (along_empty kr kl s)
  from along_empty.prems(6) obtain n where fuel: "fuel = Suc n" by (cases fuel) auto
  from along_empty have "canonize_loop (Suc n) st str s kp tk = Inr (s, (ref_str kp, l kp))"
    by (intro canonize_loop_exit) auto
  with along_empty show ?case
    by (auto simp: fuel canonical_stored_def intro: walk_refl)
next
  case (along_inside kl kr c s nd t)
  from along_inside.prems(6) obtain n where fuel: "fuel = Suc n" by (cases fuel) auto
  from along_inside have tk: "tk = t" by auto
  from str_at_nonneg [OF along_inside.hyps(2)] along_inside.hyps(1) along_inside.prems(5)
  have "is_int (kr - kl)" by (simp add: is_int_def INT_MIN_def INT_MAX_def)
  with along_inside have "canonize_loop (Suc n) st str s kp tk = Inr (s, (ref_str kp, l kp))"
    unfolding tk by (intro canonize_loop_exit) auto
  with along_inside show ?case
    by (auto simp: fuel tk canonical_stored_def intro: walk_refl)
next
  case (along_hop kl kr c s nd t)
  let ?delta = "r (sub t) - l (sub t)"
  let ?kl' = "kl + (1 + ?delta)"
  from along_hop.prems(6) along_hop.hyps(1) obtain n where fuel: "fuel = Suc n" and n: "nat (kr - ?kl' + 1) < n"
    using along_hop.hyps(6) by (cases fuel) auto
  from along_hop have tk: "tk = t" by auto
  let ?kp' = "kp\<lparr>l := l kp + (1 + ?delta)\<rparr>"
  have kl0: "0 \<le> kl" by (rule str_at_nonneg [OF along_hop.hyps(2)])
  with along_hop.hyps(1,6,7) along_hop.prems(5)
  have rng: "is_int (kr - kl)" "is_int (1 + ?delta)" "is_int ?kl'"
    by (simp_all add: is_int_def INT_MIN_def INT_MAX_def)
  have unf: "canonize_loop fuel st str s kp tk =
          (let kp' = ?kp' in
           if l kp' \<le> r kp'
           then bnd (str_at str (l kp')) (\<lambda>c.
                bnd (deref st (tgt t)) (\<lambda>nd.
                  canonize_loop n st str (tgt t) kp' (find_alpha_transition nd c)))
           else canonize_loop n st str (tgt t) kp' t)"
    unfolding fuel tk using along_hop.hyps(5,7) along_hop.prems(1,2) rng
    by (intro canonize_loop_hop) simp_all
  have step: "walk st str kr s kl (tgt t) ?kl'" 
    by (rule walk_step [OF along_hop.hyps(2,3,4,6,7) walk_refl])
  show ?case
  proof (cases "?kl' \<le> kr")
    case True
    from along_nonempty [OF along_hop.hyps(8) True] obtain c' nd' where
      c': "str_at str ?kl' = Inr c'" and nd': "deref st (tgt t) = Inr nd'" by blast
    have "\<exists>s' k'. canonize_loop n st str (tgt t) ?kp' (find_alpha_transition nd' c')
                  = Inr (s', (ref_str ?kp', k')) \<and>
           walk st str kr (tgt t) ?kl' s' k' \<and> canonical_stored st str s' k' kr"
      using along_hop.prems(1,2,5) c' nd' True n
      by (intro along_hop.IH) auto
    then obtain s' k' where
      res: "canonize_loop n st str (tgt t) ?kp' (find_alpha_transition nd' c') = Inr (s', (ref_str kp, k'))"
      and w: "walk st str kr (tgt t) ?kl' s' k'" and cn: "canonical_stored st str s' k' kr"
      by auto
    have "walk st str kr s kl s' k'"
      by (rule walk_step [OF along_hop.hyps(2,3,4,6,7) w])
    moreover have "canonize_loop fuel st str s kp tk = Inr (s', (ref_str kp, k'))"
      unfolding unf using res along_hop.prems(1,2) True c' nd'
      by (simp add: Let_def)
    ultimately show ?thesis using cn by blast
  next
    case False
    with along_hop.hyps(7) have "is_int (kr - ?kl')"
      by (simp add: is_int_def INT_MIN_def INT_MAX_def)
    then have "\<exists>s' k'. canonize_loop n st str (tgt t) ?kp' t = Inr (s', (ref_str ?kp', k')) \<and>
           walk st str kr (tgt t) ?kl' s' k' \<and> canonical_stored st str s' k' kr"
      using along_hop.prems(1,2,5) along_hop.hyps(5,6) False n
      by (intro along_hop.IH) auto
    then obtain s' k' where
      res: "canonize_loop n st str (tgt t) ?kp' t = Inr (s', (ref_str kp, k'))"
      and w: "walk st str kr (tgt t) ?kl' s' k'" and cn: "canonical_stored st str s' k' kr"
      by auto
    have "walk st str kr s kl s' k'"
      by (rule walk_step [OF along_hop.hyps(2,3,4,6,7) w])
    moreover have "canonize_loop fuel st str s kp tk = Inr (s', (ref_str kp, k'))"
      unfolding unf using res along_hop.prems(1,2) False
      by (simp add: Let_def)
    ultimately show ?thesis using cn by blast
  qed
qed

text \<open>Claim C6, as stated: the reference point that \<open>canonize\<close> returns is canonical, its
  substring being empty or strictly shorter than the edge for its first symbol. In the
  tree of \<open>xx\<close> the only edge of the root is the leaf edge with label \<open>xx\<close>. For the
  substring \<open>xx\<close> below the root, which is this whole label, \<open>canonize\<close> returns the root
  with all of \<open>xx\<close> left: the stored right end of the leaf edge is \<open>INT_MAX\<close>, and
  \<open>canonize\<close> compares with \<open>r - l\<close>.\<close>

theorem canonize_stays_above_leaf:
  "occurs tree_xx ''xx'' \<and>
   along tree_xx ''xx'' (Some root_addr) 0 1 \<and>
   canonize 3 tree_xx (Some root_addr) \<lparr>ref_str = 1, l = 0, r = 1\<rparr> = Inr (Some root_addr, (1, 0)) \<and>
   label tree_xx (sub (find_alpha_transition (nodes tree_xx ! root_addr) (CHR ''x''))) = ''xx'' \<and>
   \<not> canonical_label tree_xx ''xx'' (Some root_addr) 0 1"
proof -
  have "along tree_xx ''xx'' (Some root_addr) 0 1"
    by (rule along_inside [where c = "CHR ''x''" and nd = "nodes tree_xx ! 1"
          and t = "find_alpha_transition (nodes tree_xx ! 1) (CHR ''x'')"])
      (simp_all add: str_at_def deref_def tree_xx_def find_alpha_transition_def umap_find_def
         root_addr_def is_int_def INT_MIN_def INT_MAX_def)
  moreover have "occurs tree_xx ''xx''" by code_simp
  moreover have "canonize 3 tree_xx (Some root_addr) \<lparr>ref_str = 1, l = 0, r = 1\<rparr>
                   = Inr (Some root_addr, (1, 0))"
    by code_simp
  moreover have "label tree_xx (sub (find_alpha_transition (nodes tree_xx ! root_addr) (CHR ''x'')))
                   = ''xx''"
    by code_simp
  moreover have "\<not> canonical_label tree_xx ''xx'' (Some root_addr) 0 1" by code_simp
  ultimately show ?thesis by simp
qed

text \<open>Where the code leaves \<open>int\<close>: a substring whose right end is \<open>INT_MAX\<close>.\<close>

lemma canonize_overflow:
  "canonize 3 tree_xx (Some root_addr) \<lparr>ref_str = 1, l = 0, r = INT_MAX\<rparr> = Inl IntOverflow"
  by code_simp

text \<open>Claim C6, amended: for a substring that lies along transitions below \<open>s\<close> and ends
  before \<open>INT_MAX\<close>, \<open>canonize\<close> returns, within as many iterations as the substring has
  symbols (plus one), the reference point reached by hopping over whole transitions while
  the remaining substring is at least as long as the stored length \<open>r - l + 1\<close> of the
  transition; the result is canonical with respect to the stored lengths: its substring
  is empty or strictly shorter than \<open>r - l + 1\<close> of the transition for its first symbol.\<close>

theorem canonize_canonical:
  assumes "haystack_find st (ref_str kp) = Inr str" and "along st str s (l kp) (r kp)"
    and "r kp < INT_MAX" and "nat (r kp - l kp + 1) < fuel"
  shows "\<exists>s' k'. canonize fuel st s kp = Inr (s', (ref_str kp, k')) \<and>
           walk st str (r kp) s (l kp) s' k' \<and> canonical_stored st str s' k' (r kp)"
proof (cases "r kp < l kp")
  case True
  then show ?thesis
    by (auto simp: canonize_def canonical_stored_def intro: walk_refl)
next
  case False
  then have ne: "l kp \<le> r kp" by simp
  from along_nonempty [OF assms(2) ne] obtain c nd where
    c: "str_at str (l kp) = Inr c" and nd: "deref st s = Inr nd" by blast
  have "\<exists>s' k'. canonize_loop fuel st str s kp (find_alpha_transition nd c) = Inr (s', (ref_str kp, k')) \<and>
           walk st str (r kp) s (l kp) s' k' \<and> canonical_stored st str s' k' (r kp)"
    using assms(2,3,4) ne c nd by (intro canonize_loop_along) auto
  with False assms(1) c nd show ?thesis
    by (simp add: canonize_def)
qed

definition tree_xxy :: tree where
  "tree_xxy = \<lparr>nodes =
      [\<lparr>g = [], suffix_link = Some 1, kind = SinkNode\<rparr>,
       \<lparr>g = [(CHR ''x'', \<lparr>sub = \<lparr>ref_str = 1, l = 0, r = 0\<rparr>, tgt = Some 3\<rparr>),
             (CHR ''y'', \<lparr>sub = \<lparr>ref_str = 1, l = 2, r = 2147483647\<rparr>, tgt = Some 5\<rparr>)],
          suffix_link = Some 0, kind = Node\<rparr>,
       \<lparr>g = [], suffix_link = None, kind = Leaf\<rparr>,
       \<lparr>g = [(CHR ''x'', \<lparr>sub = \<lparr>ref_str = 1, l = 1, r = 2147483647\<rparr>, tgt = Some 2\<rparr>),
             (CHR ''y'', \<lparr>sub = \<lparr>ref_str = 1, l = 2, r = 2147483647\<rparr>, tgt = Some 4\<rparr>)],
          suffix_link = Some 1, kind = Node\<rparr>,
       \<lparr>g = [], suffix_link = None, kind = Leaf\<rparr>,
       \<lparr>g = [], suffix_link = None, kind = Leaf\<rparr>],
     haystack = [(1, ''xxy'')], last_index = 1\<rparr>"

lemma tree_xxy: "addString 3 Base ''xxy'' = Inr (tree_xxy, 1)"
  by code_simp

theorem canonize_canonical_witness:
  "haystack_find tree_xxy 1 = Inr ''xxy'' \<and>
   along tree_xxy ''xxy'' (Some 1) 0 1 \<and>
   canonize 3 tree_xxy (Some 1) \<lparr>ref_str = 1, l = 0, r = 1\<rparr> = Inr (Some 3, (1, 1)) \<and>
   canonical_stored tree_xxy ''xxy'' (Some 3) 1 1"
proof -
  let ?kp = "\<lparr>ref_str = 1, l = 0, r = 1\<rparr>"
  have h1: "haystack_find tree_xxy (ref_str ?kp) = Inr ''xxy''"
    by (simp add: haystack_find_def umap_find_def tree_xxy_def)
  have in3: "along tree_xxy ''xxy'' (Some 3) 1 1"
    by (rule along_inside [where c = "CHR ''x''" and nd = "nodes tree_xxy ! 3"
          and t = "find_alpha_transition (nodes tree_xxy ! 3) (CHR ''x'')"])
      (simp_all add: str_at_def deref_def tree_xxy_def find_alpha_transition_def umap_find_def
         is_int_def INT_MIN_def INT_MAX_def)
  have "along tree_xxy ''xxy'' (Some 1) 0 1"
  proof (rule along_hop [where c = "CHR ''x''" and nd = "nodes tree_xxy ! 1"
          and t = "find_alpha_transition (nodes tree_xxy ! 1) (CHR ''x'')"])
    have t: "find_alpha_transition (nodes tree_xxy ! 1) (CHR ''x'')
               = \<lparr>sub = \<lparr>ref_str = 1, l = 0, r = 0\<rparr>, tgt = Some 3\<rparr>"
      by (simp add: tree_xxy_def find_alpha_transition_def umap_find_def)
    show "along tree_xxy ''xxy'' (tgt (find_alpha_transition (nodes tree_xxy ! 1) (CHR ''x'')))
            (0 + (1 + (r (sub (find_alpha_transition (nodes tree_xxy ! 1) (CHR ''x''))) -
                       l (sub (find_alpha_transition (nodes tree_xxy ! 1) (CHR ''x'')))))) 1"
      unfolding t using in3 by simp
  qed (simp_all add: str_at_def deref_def tree_xxy_def find_alpha_transition_def umap_find_def
         is_int_def INT_MIN_def INT_MAX_def)
  then have h2: "along tree_xxy ''xxy'' (Some 1) (l ?kp) (r ?kp)" by simp
  have h3: "r ?kp < INT_MAX" by (simp add: INT_MAX_def)
  have h4: "nat (r ?kp - l ?kp + 1) < 3" by simp
  have c: "canonize 3 tree_xxy (Some 1) ?kp = Inr (Some 3, (1, 1))" by code_simp
  from canonize_canonical [OF h1 h2 h3 h4] h1 h2 c show ?thesis by simp
qed

section \<open>Well-formed stores\<close>

definition lookup :: "tree \<Rightarrow> nat \<Rightarrow> char \<Rightarrow> transition option" where
  "lookup st a c = (if a < length (nodes st) then umap_find (g (nodes st ! a)) c else None)"

text \<open>The nodes that stored transitions lead to from the root.\<close>

inductive reach :: "tree \<Rightarrow> nat \<Rightarrow> bool" for st :: tree where
  reach_root: "reach st root_addr"
| reach_step: "reach st a \<Longrightarrow> lookup st a c = Some t \<Longrightarrow> tgt t = Some b \<Longrightarrow> reach st b"

definition anchors_ok :: "tree \<Rightarrow> bool" where
  "anchors_ok st =
     (2 \<le> length (nodes st) \<and>
      nodes st ! sink_addr = \<lparr>g = [], suffix_link = Some root_addr, kind = SinkNode\<rparr> \<and>
      suffix_link (nodes st ! root_addr) = Some sink_addr \<and>
      (\<forall>a. 1 \<le> a \<and> a < length (nodes st) \<longrightarrow> kind (nodes st ! a) \<noteq> SinkNode) \<and>
      0 \<notin> fst ` set (haystack st))"

definition edges_ok :: "tree \<Rightarrow> bool" where
  "edges_ok st =
     ((\<forall>a < length (nodes st). distinct (map fst (g (nodes st ! a)))) \<and>
      (\<forall>a c t. lookup st a c = Some t \<longrightarrow> (\<exists>b. tgt t = Some b \<and> 2 \<le> b \<and> b < length (nodes st))) \<and>
      (\<forall>a c t a' c' t'. lookup st a c = Some t \<longrightarrow> lookup st a' c' = Some t' \<longrightarrow>
          tgt t = tgt t' \<longrightarrow> a = a' \<and> c = c'))"

definition all_reachable :: "tree \<Rightarrow> bool" where
  "all_reachable st = (\<forall>b. 1 \<le> b \<and> b < length (nodes st) \<longrightarrow> reach st b)"

definition links_ok :: "tree \<Rightarrow> bool" where
  "links_ok st =
     (\<forall>a b. 2 \<le> a \<and> a < length (nodes st) \<longrightarrow> suffix_link (nodes st ! a) = Some b \<longrightarrow>
        1 \<le> b \<and> b < length (nodes st))"

definition wf_tree :: "tree \<Rightarrow> bool" where
  "wf_tree st = (anchors_ok st \<and> edges_ok st \<and> all_reachable st \<and> links_ok st)"

lemma wf_tree_Base: "wf_tree Base"
proof -
  have lk: "lookup Base a c = None" for a c
    by (cases a; cases "a - 1") (simp_all add: lookup_def Base_def umap_find_def)
  have "reach Base b" if "1 \<le> b" "b < length (nodes Base)" for b
  proof -
    from that have "b = root_addr" by (simp add: Base_def root_addr_def)
    then show ?thesis by (simp add: reach_root)
  qed
  then have "all_reachable Base" by (simp add: all_reachable_def)
  moreover have "anchors_ok Base"
    by (auto simp: anchors_ok_def Base_def sink_addr_def root_addr_def less_Suc_eq)
  moreover have "edges_ok Base"
    by (auto simp: edges_ok_def lk) (auto simp: Base_def less_Suc_eq)
  moreover have "links_ok Base"
    by (simp add: links_ok_def Base_def)
  ultimately show ?thesis by (simp add: wf_tree_def)
qed

subsection \<open>Writing a suffix link\<close>

lemma set_suffix_link_nodes:
  assumes "set_suffix_link p q st = Inr st'"
  obtains a where "p = Some a" "a < length (nodes st)"
    "st' = st\<lparr>nodes := (nodes st)[a := (nodes st ! a)\<lparr>suffix_link := q\<rparr>]\<rparr>"
  using assms by (auto simp: set_suffix_link_def split: option.splits if_splits)

lemma reach_mono:
  assumes "reach st b" and "\<And>a c t. lookup st a c = Some t \<Longrightarrow> lookup st' a c = Some t"
  shows "reach st' b"
  using assms(1)
proof (induction rule: reach.induct)
  case reach_root
  show ?case by (rule reach.reach_root)
next
  case (reach_step a c t b)
  from reach_step.IH assms(2) [OF reach_step.hyps(2)] reach_step.hyps(3) show ?case
    by (rule reach.reach_step)
qed

lemma wf_tree_set_suffix_link:
  assumes wf: "wf_tree st" and a: "2 \<le> a" "a < length (nodes st)"
    and b: "1 \<le> b" "b < length (nodes st)"
  shows "wf_tree (st\<lparr>nodes := (nodes st)[a := (nodes st ! a)\<lparr>suffix_link := Some b\<rparr>]\<rparr>)"
proof -
  let ?st' = "st\<lparr>nodes := (nodes st)[a := (nodes st ! a)\<lparr>suffix_link := Some b\<rparr>]\<rparr>"
  have lk: "lookup ?st' x c = lookup st x c" for x c
    using a by (simp add: lookup_def nth_list_update)
  have g: "g (nodes ?st' ! x) = g (nodes st ! x)" if "x < length (nodes st)" for x
    using that a by (simp add: nth_list_update)
  have rc: "reach ?st' x" if "reach st x" for x
    using that by (rule reach_mono) (simp add: lk)
  from wf a have "anchors_ok ?st'"
    by (auto simp: wf_tree_def anchors_ok_def sink_addr_def root_addr_def nth_list_update)
  moreover from wf have "edges_ok ?st'"
    unfolding wf_tree_def edges_ok_def lk using g by simp
  moreover from wf rc have "all_reachable ?st'"
    by (simp add: wf_tree_def all_reachable_def)
  moreover from wf a b have "links_ok ?st'"
    by (auto simp: wf_tree_def links_ok_def nth_list_update)
  ultimately show ?thesis by (simp add: wf_tree_def)
qed

subsection \<open>Attaching a leaf\<close>

definition add_leaf :: "tree \<Rightarrow> nat \<Rightarrow> char \<Rightarrow> mapped_substring \<Rightarrow> tree" where
  "add_leaf st a c m =
     st\<lparr>nodes := (nodes st @ [\<lparr>g = [], suffix_link = None, kind = Leaf\<rparr>])
            [a := (nodes st ! a)\<lparr>g := g (nodes st ! a) @
                    [(c, \<lparr>sub = m, tgt = Some (length (nodes st))\<rparr>)]\<rparr>]\<rparr>"

lemma g_insert_new_leaf:
  assumes "a < length (nodes st)" "lookup st a c = None"
  shows "g_insert (Some a) c \<lparr>sub = m, tgt = Some (length (nodes st))\<rparr>
           (st\<lparr>nodes := nodes st @ [\<lparr>g = [], suffix_link = None, kind = Leaf\<rparr>]\<rparr>)
         = Inr (add_leaf st a c m)"
  using assms
  by (simp add: g_insert_def set_g_def add_leaf_def lookup_def umap_find_def umap_insert_def nth_append)

lemma lookup_add_leaf:
  assumes "a < length (nodes st)" "lookup st a c = None"
  shows "lookup (add_leaf st a c m) x k =
           (if x = a \<and> k = c then Some \<lparr>sub = m, tgt = Some (length (nodes st))\<rparr>
            else lookup st x k)"
proof -
  have "map_of (g (nodes st ! a) @ [(c, e)]) k = (if k = c then Some e else map_of (g (nodes st ! a)) k)"
    for e :: transition
    using assms by (auto simp: lookup_def umap_find_def map_add_def split: option.splits)
  with assms(1) show ?thesis
    by (auto simp: lookup_def add_leaf_def umap_find_def nth_list_update nth_append less_Suc_eq)
qed

lemma nodes_add_leaf:
  assumes "a < length (nodes st)"
  shows "length (nodes (add_leaf st a c m)) = Suc (length (nodes st))"
    and "haystack (add_leaf st a c m) = haystack st"
    and "x < length (nodes st) \<Longrightarrow> kind (nodes (add_leaf st a c m) ! x) = kind (nodes st ! x)"
    and "x < length (nodes st) \<Longrightarrow>
           suffix_link (nodes (add_leaf st a c m) ! x) = suffix_link (nodes st ! x)"
    and "nodes (add_leaf st a c m) ! length (nodes st) = \<lparr>g = [], suffix_link = None, kind = Leaf\<rparr>"
    and "x < length (nodes st) \<Longrightarrow> x \<noteq> a \<Longrightarrow>
           nodes (add_leaf st a c m) ! x = nodes st ! x"
    and "g (nodes (add_leaf st a c m) ! a) = g (nodes st ! a) @
           [(c, \<lparr>sub = m, tgt = Some (length (nodes st))\<rparr>)]"
  using assms by (auto simp: add_leaf_def nth_list_update nth_append)

lemma wf_tree_add_leaf:
  assumes wf: "wf_tree st" and a: "1 \<le> a" "a < length (nodes st)" and c: "lookup st a c = None"
  shows "wf_tree (add_leaf st a c m)"
proof -
  let ?st' = "add_leaf st a c m"
  let ?n = "length (nodes st)"
  note lk = lookup_add_leaf [OF a(2) c, where m = m]
  note nd = nodes_add_leaf [OF a(2), where c = c and m = m]
  from wf have an: "anchors_ok st" and ed: "edges_ok st" and re: "all_reachable st" and li: "links_ok st"
    by (simp_all add: wf_tree_def)
  have old: "lookup st x k = Some t \<Longrightarrow> lookup ?st' x k = Some t" for x k t
    using c by (auto simp: lk)
  have rc: "reach ?st' x" if "reach st x" for x
    using that old by (rule reach_mono)
  have "anchors_ok ?st'"
    unfolding anchors_ok_def
  proof (intro conjI allI impI)
    show "2 \<le> length (nodes ?st')" using an by (simp add: nd anchors_ok_def)
    have "sink_addr < ?n" "sink_addr \<noteq> a" "root_addr < ?n"
      using an a by (auto simp: anchors_ok_def sink_addr_def root_addr_def)
    from nd(6) [OF this(1,2)] nd(4) [OF this(3)] an
    show "nodes ?st' ! sink_addr = \<lparr>g = [], suffix_link = Some root_addr, kind = SinkNode\<rparr>"
      and "suffix_link (nodes ?st' ! root_addr) = Some sink_addr"
      by (simp_all add: anchors_ok_def)
    show "kind (nodes ?st' ! x) \<noteq> SinkNode" if "1 \<le> x \<and> x < length (nodes ?st')" for x
      using that an nd(3) [of x] nd(5) by (cases "x = ?n") (auto simp: anchors_ok_def nd(1))
    show "0 \<notin> fst ` set (haystack ?st')" using an by (simp add: nd anchors_ok_def)
  qed
  moreover have "edges_ok ?st'"
  proof -
    have d: "distinct (map fst (g (nodes ?st' ! x)))" if "x < length (nodes ?st')" for x
    proof -
      from that have x: "x < ?n \<or> x = ?n" by (auto simp: nd(1))
      from c a have "c \<notin> fst ` set (g (nodes st ! a))"
        by (simp add: lookup_def umap_find_def map_of_eq_None_iff)
      with ed a x show ?thesis
        using nd(6) [of x] nd(7) nd(5) by (cases "x = a") (auto simp: edges_ok_def)
    qed
    have tg: "\<exists>b. tgt t = Some b \<and> 2 \<le> b \<and> b < length (nodes ?st')"
      if "lookup ?st' x k = Some t" for x k t
      using that ed an by (fastforce simp: lk nd(1) edges_ok_def anchors_ok_def split: if_splits)
    have fresh: "tgt u \<noteq> Some ?n" if "lookup st y j = Some u" for y j u
      using ed that by (fastforce simp: edges_ok_def)
    have un: "x = x' \<and> k = k'"
      if 1: "lookup ?st' x k = Some t" and 2: "lookup ?st' x' k' = Some t'" and 3: "tgt t = tgt t'"
      for x k t x' k' t'
    proof (cases "(x = a \<and> k = c) \<or> (x' = a \<and> k' = c)")
      case True
      have new: "x = a \<and> k = c" if "lookup ?st' x k = Some t" "tgt t = Some ?n" for x k t
      proof (rule ccontr)
        assume "\<not> (x = a \<and> k = c)"
        with that(1) have "lookup st x k = Some t" by (auto simp: lk split: if_splits)
        from fresh [OF this] that(2) show False by simp
      qed
      from True 1 2 have "tgt t = Some ?n \<or> tgt t' = Some ?n"
        by (auto simp: lk split: if_splits)
      with 3 have "tgt t = Some ?n" "tgt t' = Some ?n" by auto
      from new [OF 1 this(1)] new [OF 2 this(2)] show ?thesis by simp
    next
      case False
      with 1 2 have "lookup st x k = Some t" "lookup st x' k' = Some t'"
        by (auto simp: lk split: if_splits)
      with ed 3 show ?thesis unfolding edges_ok_def by blast
    qed
    from d tg un show ?thesis unfolding edges_ok_def by blast
  qed
  moreover have "all_reachable ?st'"
    unfolding all_reachable_def
  proof (intro allI impI)
    fix b assume b: "1 \<le> b \<and> b < length (nodes ?st')"
    show "reach ?st' b"
    proof (cases "b = ?n")
      case False
      with b re rc show ?thesis by (simp add: all_reachable_def nd(1))
    next
      case True
      from re a rc have "reach ?st' a" by (simp add: all_reachable_def)
      then show ?thesis
        by (rule reach_step [where c = c and t = "\<lparr>sub = m, tgt = Some ?n\<rparr>"])
          (simp_all add: lk True)
    qed
  qed
  moreover have "links_ok ?st'"
    unfolding links_ok_def
  proof (intro allI impI)
    fix x b assume x: "2 \<le> x \<and> x < length (nodes ?st')" and s: "suffix_link (nodes ?st' ! x) = Some b"
    with nd(5) have "x < ?n" by (cases "x = ?n") (auto simp: nd(1))
    with x s li nd(4) [of x] show "1 \<le> b \<and> b < length (nodes ?st')"
      by (auto simp: links_ok_def nd(1))
  qed
  ultimately show ?thesis by (simp add: wf_tree_def)
qed

subsection \<open>Splitting an edge\<close>

lemma lookup_split_edge:
  assumes "a < length (nodes st)"
  shows "lookup (split_edge st a tk c delta) x k =
           (let e = find_alpha_transition (nodes st ! a) tk in
            if x = a then
              (if k = tk then Some \<lparr>sub = (sub e)\<lparr>r := l (sub e) + delta\<rparr>, tgt = Some (length (nodes st))\<rparr>
               else lookup st a k)
            else if x = length (nodes st) then
              (if k = c then Some (e\<lparr>sub := (sub e)\<lparr>l := l (sub e) + delta + 1\<rparr>\<rparr>) else None)
            else lookup st x k)"
  using assms
  by (auto simp: lookup_def split_edge_def Let_def nth_list_update nth_append umap_find_assign
      umap_find_Cons umap_find_Nil)

lemma nodes_split_edge:
  assumes "a < length (nodes st)"
  shows "length (nodes (split_edge st a tk c delta)) = Suc (length (nodes st))"
    and "haystack (split_edge st a tk c delta) = haystack st"
    and "x < length (nodes st) \<Longrightarrow> kind (nodes (split_edge st a tk c delta) ! x) = kind (nodes st ! x)"
    and "x < length (nodes st) \<Longrightarrow>
           suffix_link (nodes (split_edge st a tk c delta) ! x) = suffix_link (nodes st ! x)"
    and "kind (nodes (split_edge st a tk c delta) ! length (nodes st)) = Node"
    and "suffix_link (nodes (split_edge st a tk c delta) ! length (nodes st)) = None"
    and "map fst (g (nodes (split_edge st a tk c delta) ! length (nodes st))) = [c]"
    and "x < length (nodes st) \<Longrightarrow> x \<noteq> a \<Longrightarrow>
           nodes (split_edge st a tk c delta) ! x = nodes st ! x"
    and "g (nodes (split_edge st a tk c delta) ! a) =
           umap_assign tk \<lparr>sub = (sub (find_alpha_transition (nodes st ! a) tk))
                \<lparr>r := l (sub (find_alpha_transition (nodes st ! a) tk)) + delta\<rparr>,
              tgt = Some (length (nodes st))\<rparr> (g (nodes st ! a))"
  using assms by (auto simp: split_edge_def Let_def nth_list_update nth_append)

lemma wf_tree_split_edge:
  assumes wf: "wf_tree st" and a: "1 \<le> a" "a < length (nodes st)"
    and e: "lookup st a tk = Some (find_alpha_transition (nodes st ! a) tk)"
  shows "wf_tree (split_edge st a tk c delta)"
proof -
  let ?st' = "split_edge st a tk c delta"
  let ?n = "length (nodes st)"
  let ?e = "find_alpha_transition (nodes st ! a) tk"
  let ?e1 = "\<lparr>sub = (sub ?e)\<lparr>r := l (sub ?e) + delta\<rparr>, tgt = Some ?n\<rparr>"
  let ?e2 = "?e\<lparr>sub := (sub ?e)\<lparr>l := l (sub ?e) + delta + 1\<rparr>\<rparr>"
  note lk = lookup_split_edge [OF a(2), where tk = tk and c = c and delta = delta, unfolded Let_def]
  note nd = nodes_split_edge [OF a(2), where tk = tk and c = c and delta = delta]
  from wf have an: "anchors_ok st" and ed: "edges_ok st" and re: "all_reachable st" and li: "links_ok st"
    by (simp_all add: wf_tree_def)
  from ed e obtain b0 where b0: "tgt ?e = Some b0" "2 \<le> b0" "b0 < ?n"
    unfolding edges_ok_def by blast
  have lk_a: "lookup ?st' a tk = Some ?e1" by (simp add: lk)
  have lk_n: "lookup ?st' ?n c = Some ?e2" using a by (simp add: lk)
  have lk_o: "lookup ?st' x k = lookup st x k" if "(x, k) \<noteq> (a, tk)" "x \<noteq> ?n" for x k
    using that by (auto simp: lk)
  have inv: "(x = a \<and> k = tk \<and> t = ?e1) \<or> (x = ?n \<and> k = c \<and> t = ?e2) \<or>
             ((x, k) \<noteq> (a, tk) \<and> x \<noteq> ?n \<and> lookup st x k = Some t)"
    if "lookup ?st' x k = Some t" for x k t
    using that a by (auto simp: lk split: if_splits)
  have old_tgt: "\<exists>b. tgt t = Some b \<and> 2 \<le> b \<and> b < ?n" if "lookup st x k = Some t" for x k t
    using ed that unfolding edges_ok_def by blast
  have old_un: "x = a \<and> k = tk" if "lookup st x k = Some t" "tgt t = Some b0" for x k t
    using ed that e b0(1) unfolding edges_ok_def by metis
  have "anchors_ok ?st'"
    unfolding anchors_ok_def
  proof (intro conjI allI impI)
    show "2 \<le> length (nodes ?st')" using an by (simp add: nd anchors_ok_def)
    have "sink_addr < ?n" "sink_addr \<noteq> a" "root_addr < ?n"
      using an a by (auto simp: anchors_ok_def sink_addr_def root_addr_def)
    from nd(8) [OF this(1,2)] nd(4) [OF this(3)] an
    show "nodes ?st' ! sink_addr = \<lparr>g = [], suffix_link = Some root_addr, kind = SinkNode\<rparr>"
      and "suffix_link (nodes ?st' ! root_addr) = Some sink_addr"
      by (simp_all add: anchors_ok_def)
    show "kind (nodes ?st' ! x) \<noteq> SinkNode" if "1 \<le> x \<and> x < length (nodes ?st')" for x
      using that an nd(3) [of x] nd(5) by (cases "x = ?n") (auto simp: anchors_ok_def nd(1))
    show "0 \<notin> fst ` set (haystack ?st')" using an by (simp add: nd anchors_ok_def)
  qed
  moreover have "edges_ok ?st'"
  proof -
    have d: "distinct (map fst (g (nodes ?st' ! x)))" if "x < length (nodes ?st')" for x
    proof -
      from that have x: "x < ?n \<or> x = ?n" by (auto simp: nd(1))
      from e a have "tk \<in> fst ` set (g (nodes st ! a))"
        by (auto simp: lookup_def umap_find_def dest!: map_of_SomeD intro: rev_image_eqI)
      then have "map fst (g (nodes ?st' ! a)) = map fst (g (nodes st ! a))"
        by (simp add: nd(9) map_fst_umap_assign)
      with ed a x show ?thesis
        using nd(8) [of x] nd(7) by (cases "x = a") (auto simp: edges_ok_def)
    qed
    have tg: "\<exists>b. tgt t = Some b \<and> 2 \<le> b \<and> b < length (nodes ?st')"
      if "lookup ?st' x k = Some t" for x k t
      using inv [OF that] b0 an old_tgt [of x k t]
      by (auto simp: nd(1) anchors_ok_def)
    have un: "x = x' \<and> k = k'"
      if 1: "lookup ?st' x k = Some t" and 2: "lookup ?st' x' k' = Some t'" and 3: "tgt t = tgt t'"
      for x k t x' k' t'
    proof -
      have cls: "(tgt t = Some ?n \<longrightarrow> x = a \<and> k = tk) \<and> (tgt t = Some b0 \<longrightarrow> x = ?n \<and> k = c)"
        if "lookup ?st' x k = Some t" for x k t
        using inv [OF that] b0 old_tgt [of x k t] old_un [of x k t] by auto
      show ?thesis
      proof (cases "tgt t = Some ?n \<or> tgt t = Some b0")
        case True
        with cls [OF 1] cls [OF 2] 3 show ?thesis by auto
      next
        case False
        with inv [OF 1] inv [OF 2] 3 b0 have "lookup st x k = Some t" "lookup st x' k' = Some t'"
          by auto
        with ed 3 show ?thesis unfolding edges_ok_def by blast
      qed
    qed
    from d tg un show ?thesis unfolding edges_ok_def by blast
  qed
  moreover have "all_reachable ?st'"
  proof -
    have rc: "reach ?st' x" if "reach st x" for x
      using that
    proof (induction rule: reach.induct)
      case reach_root
      show ?case by (rule reach.reach_root)
    next
      case (reach_step x k t y)
      show ?case
      proof (cases "(x, k) = (a, tk)")
        case True
        with reach_step.hyps(2,3) e b0 have y: "y = b0" by simp
        from reach_step.IH True have "reach ?st' a" by simp
        from this lk_a have "reach ?st' ?n" by (rule reach.reach_step) simp
        from this lk_n show ?thesis unfolding y by (rule reach.reach_step) (simp add: b0)
      next
        case False
        from reach_step.hyps(2) have "x < ?n" by (simp add: lookup_def split: if_splits)
        with False reach_step.hyps(2) have "lookup ?st' x k = Some t" by (simp add: lk_o)
        with reach_step.IH show ?thesis using reach_step.hyps(3) by (rule reach.reach_step)
      qed
    qed
    show ?thesis
      unfolding all_reachable_def
    proof (intro allI impI)
      fix b assume b: "1 \<le> b \<and> b < length (nodes ?st')"
      show "reach ?st' b"
      proof (cases "b = ?n")
        case False
        with b re rc show ?thesis by (simp add: all_reachable_def nd(1))
      next
        case True
        from re a rc have "reach ?st' a" by (simp add: all_reachable_def)
        from this lk_a show ?thesis unfolding True by (rule reach.reach_step) simp
      qed
    qed
  qed
  moreover have "links_ok ?st'"
    unfolding links_ok_def
  proof (intro allI impI)
    fix x b assume x: "2 \<le> x \<and> x < length (nodes ?st')" and s: "suffix_link (nodes ?st' ! x) = Some b"
    with nd(6) have "x < ?n" by (cases "x = ?n") (auto simp: nd(1))
    with x s li nd(4) [of x] show "1 \<le> b \<and> b < length (nodes ?st')"
      by (auto simp: links_ok_def nd(1))
  qed
  ultimately show ?thesis by (simp add: wf_tree_def)
qed

subsection \<open>test_and_split on a well-formed store\<close>

definition linked :: "tree \<Rightarrow> nat \<Rightarrow> nat option set \<Rightarrow> bool" where
  "linked st n0 X =
     (\<forall>x. n0 \<le> x \<and> x < length (nodes st) \<and> kind (nodes st ! x) = Node \<longrightarrow>
          Some x \<in> X \<or> (\<exists>b. suffix_link (nodes st ! x) = Some b))"

lemma find_stored:
  assumes an: "anchors_ok st" and nd: "deref st (Some a) = Inr nd"
    and hs: "haystack_find st (ref_str (sub (find_alpha_transition nd tk))) = Inr str"
  shows "1 \<le> a \<and> lookup st a tk = Some (find_alpha_transition nd tk)"
proof -
  from nd have a: "a < length (nodes st)" "nd = nodes st ! a"
    by (auto simp: deref_def split: if_splits)
  from hs have "ref_str (sub (find_alpha_transition nd tk)) \<in> fst ` set (haystack st)"
    by (auto simp: haystack_find_def umap_find_def split: option.splits dest!: map_of_SomeD
        intro: rev_image_eqI)
  with an have nz: "ref_str (sub (find_alpha_transition nd tk)) \<noteq> 0"
    unfolding anchors_ok_def by metis
  have "a \<noteq> 0"
  proof
    assume "a = 0"
    with an a have "kind nd = SinkNode" by (simp add: anchors_ok_def sink_addr_def)
    with nz show False by (simp add: find_alpha_transition_def)
  qed
  moreover from this an a have "kind nd \<noteq> SinkNode" by (simp add: anchors_ok_def)
  with nz a have "lookup st a tk = Some (find_alpha_transition nd tk)"
    by (auto simp: find_alpha_transition_def lookup_def split: option.splits)
  ultimately show ?thesis by simp
qed

lemma find_absent:
  assumes wf: "wf_tree st" and nd: "deref st (Some a) = Inr nd"
    and no: "tgt (find_alpha_transition nd t) = None"
  shows "1 \<le> a \<and> lookup st a t = None"
proof -
  from wf have an: "anchors_ok st" and ed: "edges_ok st" by (simp_all add: wf_tree_def)
  from nd have a: "a < length (nodes st)" "nd = nodes st ! a"
    by (auto simp: deref_def split: if_splits)
  have "a \<noteq> 0"
  proof
    assume "a = 0"
    with an a have "nd = \<lparr>g = [], suffix_link = Some root_addr, kind = SinkNode\<rparr>"
      by (simp add: anchors_ok_def sink_addr_def)
    with no show False by (simp add: find_alpha_transition_def)
  qed
  moreover from this an a have k: "kind nd \<noteq> SinkNode" by (simp add: anchors_ok_def)
  have "lookup st a t = None"
  proof (cases "lookup st a t")
    case (Some e)
    with k a have "find_alpha_transition nd t = e"
      by (simp add: find_alpha_transition_def lookup_def)
    with ed Some no show ?thesis unfolding edges_ok_def by fastforce
  qed simp
  ultimately show ?thesis by simp
qed

lemma find_tgt_not_sink:
  assumes wf: "wf_tree st" and nd: "deref st p = Inr nd"
  shows "tgt (find_alpha_transition nd c) \<noteq> Some 0"
proof -
  from wf have an: "anchors_ok st" and ed: "edges_ok st" by (simp_all add: wf_tree_def)
  from deref_Some [OF nd] obtain a where a: "p = Some a" "a < length (nodes st)" "nd = nodes st ! a"
    by blast
  show ?thesis
  proof (cases "kind nd = SinkNode")
    case True
    with an a have "a = 0" by (cases "a = 0") (auto simp: anchors_ok_def)
    with an a show ?thesis
      by (simp add: find_alpha_transition_def anchors_ok_def sink_addr_def root_addr_def)
  next
    case False
    show ?thesis
    proof (cases "lookup st a c")
      case None
      with False a show ?thesis by (simp add: find_alpha_transition_def lookup_def)
    next
      case (Some e)
      with False a have "find_alpha_transition nd c = e"
        by (simp add: find_alpha_transition_def lookup_def)
      with ed Some show ?thesis unfolding edges_ok_def by fastforce
    qed
  qed
qed

lemma test_and_split_wf:
  assumes run: "test_and_split st n kp t w = Inr (st', b, p)" and wf: "wf_tree st"
  shows "wf_tree st' \<and> (\<exists>a. n = Some a \<and> a < length (nodes st)) \<and>
    length (nodes st) \<le> length (nodes st') \<and>
    (\<not> b \<longrightarrow> (\<exists>q. p = Some q \<and> 1 \<le> q \<and> q < length (nodes st') \<and> lookup st' q t = None)) \<and>
    (r kp < l kp \<longrightarrow> p = n) \<and>
    (linked st n0 X \<longrightarrow> linked st' n0 (X \<union> (if b then {} else {p})))"
  using run
proof (cases rule: test_and_split_Inr)
  case (empty tk nd)
  from deref_Some [OF empty(2)] obtain a where a: "n = Some a" "a < length (nodes st)" by blast
  from find_absent [OF wf empty(2) [unfolded a]] empty a wf
  show ?thesis
    by (auto simp: linked_def)
next
  case (endpoint tk nd str)
  from deref_Some [OF endpoint(2)] obtain a where a: "n = Some a" "a < length (nodes st)" by blast
  with endpoint wf
  show ?thesis
    by (auto simp: linked_def)
next
  case (split tk nd str c a)
  from wf have an: "anchors_ok st" by (simp add: wf_tree_def)
  from split(3) have a: "a < length (nodes st)" "nd = nodes st ! a"
    by (auto simp: deref_def split(2) split: if_splits)
  from find_stored [OF an split(3) [unfolded split(2)] split(5)]
  have a1: "1 \<le> a" and e: "lookup st a tk = Some (find_alpha_transition (nodes st ! a) tk)"
    by (simp_all add: a)
  note nd = nodes_split_edge [OF a(1), where tk = tk and c = c and delta = "r kp - l kp"]
  have "wf_tree st'" unfolding split(8) by (rule wf_tree_split_edge [OF wf a1 a(1) e])
  moreover have "lookup st' (length (nodes st)) t = None"
    using split(7) a(1) by (simp add: split(8) lookup_split_edge Let_def)
  moreover have "linked st' n0 (X \<union> {p})" if "linked st n0 X"
    unfolding linked_def
  proof (intro allI impI)
    fix x assume x: "n0 \<le> x \<and> x < length (nodes st') \<and> kind (nodes st' ! x) = Node"
    show "Some x \<in> X \<union> {p} \<or> (\<exists>b. suffix_link (nodes st' ! x) = Some b)"
    proof (cases "x = length (nodes st)")
      case True
      then show ?thesis by (simp add: split(10))
    next
      case False
      with x have "x < length (nodes st)" by (simp add: split(8) nd(1))
      with x that nd(3) [of x] nd(4) [of x] show ?thesis
        by (auto simp: linked_def split(8))
    qed
  qed
  ultimately
  show ?thesis
    using split a an by (auto simp: nd(1) anchors_ok_def)
qed

subsection \<open>canonize never ends at the sink\<close>

lemma canonize_loop_Suc:
  assumes "canonize_loop (Suc fuel) st str s kp tk = Inr res"
  obtains
    (exit) "\<not> r (sub tk) - l (sub tk) \<le> r kp - l kp" "res = (s, (ref_str kp, l kp))"
  | (stale) "r (sub tk) - l (sub tk) \<le> r kp - l kp"
      "\<not> l kp + (1 + (r (sub tk) - l (sub tk))) \<le> r kp"
      "canonize_loop fuel st str (tgt tk) (kp\<lparr>l := l kp + (1 + (r (sub tk) - l (sub tk)))\<rparr>) tk
         = Inr res"
  | (hop) c nd where "r (sub tk) - l (sub tk) \<le> r kp - l kp"
      "l kp + (1 + (r (sub tk) - l (sub tk))) \<le> r kp"
      "deref st (tgt tk) = Inr nd"
      "canonize_loop fuel st str (tgt tk) (kp\<lparr>l := l kp + (1 + (r (sub tk) - l (sub tk)))\<rparr>)
         (find_alpha_transition nd c) = Inr res"
proof -
  from assms obtain delta len where d: "chk (r (sub tk) - l (sub tk)) = Inr delta"
    and n: "chk (r kp - l kp) = Inr len"
    by (auto simp: bnd_eq_Inr)
  then have dl: "delta = r (sub tk) - l (sub tk)" "len = r kp - l kp"
    by (simp_all add: chk_Inr)
  show ?thesis
  proof (cases "delta \<le> len")
    case False
    with assms d n dl exit show ?thesis by simp
  next
    case True
    with assms d n obtain d1 l1 where d1: "chk (1 + delta) = Inr d1" and l1: "chk (l kp + d1) = Inr l1"
      by (auto simp: bnd_eq_Inr)
    then have e: "d1 = 1 + delta" "l1 = l kp + (1 + delta)" by (simp_all add: chk_Inr)
    show ?thesis
    proof (cases "l1 \<le> r kp")
      case False
      with assms d n True d1 l1 stale show ?thesis
        unfolding e dl by (simp add: Let_def)
    next
      case nonempty: True
      with assms d n True d1 l1 obtain c nd where "deref st (tgt tk) = Inr nd"
        "canonize_loop fuel st str (tgt tk) (kp\<lparr>l := l1\<rparr>) (find_alpha_transition nd c) = Inr res"
        by (auto simp: bnd_eq_Inr Let_def)
      with True nonempty hop show ?thesis unfolding e dl by simp
    qed
  qed
qed

lemma canonize_loop_sink:
  assumes "canonize_loop fuel st str s kp tk = Inr (s', x)" and "wf_tree st"
    and "tgt tk \<noteq> Some 0" and "s' = Some 0"
  shows "s = Some 0 \<and> \<not> r (sub tk) - l (sub tk) \<le> r kp - l kp"
  using assms
proof (induction fuel arbitrary: s kp tk)
  case 0
  then show ?case by simp
next
  case (Suc fuel)
  from Suc.prems(1) show ?case
  proof (cases rule: canonize_loop_Suc)
    case exit
    with Suc.prems(4) show ?thesis by simp
  next
    case stale
    from Suc.IH [OF stale(3) Suc.prems(2,3,4)] Suc.prems(3) show ?thesis by simp
  next
    case (hop c nd)
    from find_tgt_not_sink [OF Suc.prems(2) hop(3)]
    have "tgt (find_alpha_transition nd c) \<noteq> Some 0" .
    from Suc.IH [OF hop(4) Suc.prems(2) this Suc.prems(4)] Suc.prems(3) show ?thesis by simp
  qed
qed

lemma canonize_sink:
  assumes run: "canonize fuel st s kp = Inr (s', x)" and wf: "wf_tree st" and s': "s' = Some 0"
  shows "s = Some 0 \<and> r kp < l kp"
proof (cases "r kp < l kp")
  case True
  with run s' show ?thesis by (simp add: canonize_def)
next
  case False
  with run obtain str c nd where nd: "deref st s = Inr nd"
    and loop: "canonize_loop fuel st str s kp (find_alpha_transition nd c) = Inr (s', x)"
    by (auto simp: canonize_def bnd_eq_Inr)
  from canonize_loop_sink [OF loop wf find_tgt_not_sink [OF wf nd] s']
  have s: "s = Some 0"
    and d: "\<not> r (sub (find_alpha_transition nd c)) - l (sub (find_alpha_transition nd c)) \<le> r kp - l kp"
    by simp_all
  from wf have "nodes st ! 0 = \<lparr>g = [], suffix_link = Some root_addr, kind = SinkNode\<rparr>"
    by (simp add: wf_tree_def anchors_ok_def sink_addr_def)
  moreover from nd s have "nd = nodes st ! 0"
    by (auto simp: deref_def split: if_splits)
  ultimately have "kind nd = SinkNode" by simp
  with d False show ?thesis by (simp add: find_alpha_transition_def)
qed

subsection \<open>The loop of update\<close>

lemma update_loop_iteration:
  assumes "update_loop (Suc fuel) st w ki ki1 sk oldr rr False = Inr (st', sk')"
  obtains c st2 st3 sk_node sk1 st4 e' rr' where
    "str_at w (r ki) = Inr c"
    "g_insert rr c \<lparr>sub = \<lparr>ref_str = ref_str ki, l = r ki, r = INT_MAX\<rparr>,
                     tgt = Some (length (nodes st))\<rparr>
       (st\<lparr>nodes := nodes st @ [\<lparr>g = [], suffix_link = None, kind = Leaf\<rparr>]\<rparr>) = Inr st2"
    "(if Some root_addr \<noteq> oldr then set_suffix_link oldr rr st2 else Inr st2) = Inr st3"
    "deref st3 (fst sk) = Inr sk_node"
    "canonize fuel st3 (suffix_link sk_node) ki1 = Inr sk1"
    "test_and_split st3 (fst sk1) (ki1\<lparr>l := snd (snd sk1)\<rparr>) c w = Inr (st4, e', rr')"
    "update_loop fuel st4 w (ki\<lparr>l := snd (snd sk1)\<rparr>) (ki1\<lparr>l := snd (snd sk1)\<rparr>) sk1 rr rr' e'
       = Inr (st', sk')"
  using assms by (auto simp: bnd_eq_Inr new_node_def Let_def)

lemma update_loop_exit:
  assumes "update_loop (Suc fuel) st w ki ki1 sk oldr rr True = Inr (st', sk')"
  shows "sk' = sk \<and> (if Some root_addr \<noteq> oldr then set_suffix_link oldr (fst sk) st else Inr st) = Inr st'"
  using assms by (auto simp: bnd_eq_Inr)

lemma link_to_sink:
  assumes wf: "wf_tree st" and x: "x < length (nodes st)" and s: "suffix_link (nodes st ! x) = Some 0"
  shows "x = 1"
proof (rule ccontr)
  assume n1: "x \<noteq> 1"
  from wf have an: "anchors_ok st" and li: "links_ok st" by (simp_all add: wf_tree_def)
  show False
  proof (cases "x = 0")
    case True
    with an s show False by (simp add: anchors_ok_def sink_addr_def root_addr_def)
  next
    case False
    with n1 have "2 \<le> x" by simp
    with x li s have "1 \<le> (0::nat)" unfolding links_ok_def by blast
    then show False by simp
  qed
qed

lemma update_loop_wf:
  assumes "update_loop fuel st w ki ki1 sk oldr rr e = Inr (st', sk')"
    and "wf_tree st" and "2 \<le> n0"
    and "linked st n0 ({oldr} \<union> (if e then {} else {rr}))"
    and "\<exists>ol. oldr = Some ol \<and> 1 \<le> ol \<and> ol < length (nodes st)"
    and "e \<longrightarrow> (\<exists>b. fst sk = Some b \<and> b < length (nodes st))"
    and "fst sk = Some 0 \<longrightarrow> oldr = Some 1"
    and "\<not> e \<longrightarrow> (\<exists>a. rr = Some a \<and> 1 \<le> a \<and> a < length (nodes st) \<and>
                    (\<forall>c. str_at w (r ki) = Inr c \<longrightarrow> lookup st a c = None))"
    and "\<not> e \<and> r ki1 < l ki1 \<longrightarrow> rr = fst sk"
  shows "wf_tree st' \<and> linked st' n0 {} \<and> length (nodes st) \<le> length (nodes st')"
  using assms
proof (induction fuel arbitrary: st ki ki1 sk oldr rr e)
  case 0
  then show ?case by simp
next
  case (Suc fuel)
  from Suc.prems(5) obtain ol where ol: "oldr = Some ol" "1 \<le> ol" "ol < length (nodes st)"
    by blast
  show ?case
  proof (cases e)
    case True
    then have eT: "e = True" by simp
    from update_loop_exit [OF Suc.prems(1) [unfolded eT]]
    have ex: "(if Some root_addr \<noteq> oldr then set_suffix_link oldr (fst sk) st else Inr st) = Inr st'"
      by simp
    show ?thesis
    proof (cases "ol = 1")
      case one: True
      with ex ol have "st' = st" by (simp add: root_addr_def)
      moreover from Suc.prems(3,4) True one ol have "linked st n0 {}"
        by (auto simp: linked_def)
      ultimately show ?thesis using Suc.prems(2) by simp
    next
      case False
      with ol have ol2: "2 \<le> ol" by simp
      from Suc.prems(6) True obtain b where b: "fst sk = Some b" "b < length (nodes st)" by blast
      from Suc.prems(7) b ol False have b1: "1 \<le> b" by (cases "b = 0") auto
      from ex False ol b
      have st': "st' = st\<lparr>nodes := (nodes st)[ol := (nodes st ! ol)\<lparr>suffix_link := Some b\<rparr>]\<rparr>"
        by (simp add: root_addr_def set_suffix_link_def)
      have "wf_tree st'"
        unfolding st' by (rule wf_tree_set_suffix_link [OF Suc.prems(2) ol2 ol(3) b1 b(2)])
      moreover have "linked st' n0 {}"
        using Suc.prems(4) True ol
        by (auto simp: linked_def st' nth_list_update)
      ultimately show ?thesis by (simp add: st')
    qed
  next
    case False
    from Suc.prems(8) False obtain a where a: "rr = Some a" "1 \<le> a" "a < length (nodes st)"
      and absent: "\<And>c. str_at w (r ki) = Inr c \<Longrightarrow> lookup st a c = None"
      by blast
    from False have eF: "e = False" by simp
    from Suc.prems(1) [unfolded eF]
    obtain c st2 st3 sk_node sk1 st4 e' rr' where
      c: "str_at w (r ki) = Inr c"
      and ins: "g_insert rr c \<lparr>sub = \<lparr>ref_str = ref_str ki, l = r ki, r = INT_MAX\<rparr>,
                     tgt = Some (length (nodes st))\<rparr>
                 (st\<lparr>nodes := nodes st @ [\<lparr>g = [], suffix_link = None, kind = Leaf\<rparr>]\<rparr>) = Inr st2"
      and lnk: "(if Some root_addr \<noteq> oldr then set_suffix_link oldr rr st2 else Inr st2) = Inr st3"
      and dsk: "deref st3 (fst sk) = Inr sk_node"
      and can: "canonize fuel st3 (suffix_link sk_node) ki1 = Inr sk1"
      and tas: "test_and_split st3 (fst sk1) (ki1\<lparr>l := snd (snd sk1)\<rparr>) c w = Inr (st4, e', rr')"
      and rec: "update_loop fuel st4 w (ki\<lparr>l := snd (snd sk1)\<rparr>) (ki1\<lparr>l := snd (snd sk1)\<rparr>) sk1 rr rr' e'
                  = Inr (st', sk')"
      by (rule update_loop_iteration)
    let ?m = "\<lparr>ref_str = ref_str ki, l = r ki, r = INT_MAX\<rparr>"
    from ins g_insert_new_leaf [OF a(3) absent [OF c], of ?m] a(1)
    have st2: "st2 = add_leaf st a c ?m" by simp
    note n2 = nodes_add_leaf [OF a(3), where c = c and m = ?m, folded st2]
    have wf2: "wf_tree st2"
      unfolding st2 by (rule wf_tree_add_leaf [OF Suc.prems(2) a(2,3) absent [OF c]])
    have l2: "linked st2 n0 {oldr, rr}"
      unfolding linked_def
    proof (intro allI impI)
      fix x assume x: "n0 \<le> x \<and> x < length (nodes st2) \<and> kind (nodes st2 ! x) = Node"
      with n2(5) have "x < length (nodes st)" by (cases "x = length (nodes st)") (auto simp: n2(1))
      with x Suc.prems(4) False n2(3) [of x] n2(4) [of x]
      show "Some x \<in> {oldr, rr} \<or> (\<exists>b. suffix_link (nodes st2 ! x) = Some b)"
        by (auto simp: linked_def)
    qed
    have "wf_tree st3 \<and> linked st3 n0 {rr} \<and> length (nodes st3) = length (nodes st2)"
    proof (cases "ol = 1")
        case True
        with lnk ol have "st3 = st2" by (simp add: root_addr_def)
        moreover from l2 True ol Suc.prems(3) have "linked st2 n0 {rr}" by (auto simp: linked_def)
        ultimately show ?thesis using wf2 by simp
      next
        case False
        with ol have ol2: "2 \<le> ol" by simp
        from ol n2(1) have ol3: "ol < length (nodes st2)" by simp
        from a n2(1) have a3: "a < length (nodes st2)" by simp
        from lnk False ol ol3 a(1)
        have st3: "st3 = st2\<lparr>nodes := (nodes st2)[ol := (nodes st2 ! ol)\<lparr>suffix_link := Some a\<rparr>]\<rparr>"
          by (simp add: root_addr_def set_suffix_link_def)
        have "wf_tree st3"
          unfolding st3 by (rule wf_tree_set_suffix_link [OF wf2 ol2 ol3 a(2) a3])
        moreover have "linked st3 n0 {rr}"
          using l2 ol ol3 by (auto simp: linked_def st3 nth_list_update)
        ultimately show ?thesis by (simp add: st3)
    qed
    then have wf3: "wf_tree st3" and l3: "linked st3 n0 {rr}"
      and n3: "length (nodes st3) = length (nodes st2)"
      by simp_all
    from test_and_split_wf [OF tas wf3, of n0 "{rr}"] l3
    have wf4: "wf_tree st4" and v1: "\<exists>a. fst sk1 = Some a \<and> a < length (nodes st3)"
      and n4: "length (nodes st3) \<le> length (nodes st4)"
      and ne: "\<not> e' \<longrightarrow> (\<exists>q. rr' = Some q \<and> 1 \<le> q \<and> q < length (nodes st4) \<and> lookup st4 q c = None)"
      and em: "r (ki1\<lparr>l := snd (snd sk1)\<rparr>) < l (ki1\<lparr>l := snd (snd sk1)\<rparr>) \<longrightarrow> rr' = fst sk1"
      and l4: "linked st4 n0 ({rr} \<union> (if e' then {} else {rr'}))"
      by simp_all
    have sink: "rr = Some 1" if "fst sk1 = Some 0"
    proof -
      obtain s1 x1 where sk1: "sk1 = (s1, x1)" by (cases sk1)
      from canonize_sink [OF can [unfolded sk1] wf3] that sk1
      have sl: "suffix_link sk_node = Some 0" and emp: "r ki1 < l ki1" by simp_all
      from deref_Some [OF dsk] obtain y where y: "fst sk = Some y" "y < length (nodes st3)"
        "sk_node = nodes st3 ! y" by blast
      from link_to_sink [OF wf3 y(2)] sl y(3) have "y = 1" by simp
      with Suc.prems(9) False emp y(1) show ?thesis by simp
    qed
    have "wf_tree st' \<and> linked st' n0 {} \<and> length (nodes st4) \<le> length (nodes st')"
    proof (rule Suc.IH [OF rec wf4 Suc.prems(3)])
      show "linked st4 n0 ({rr} \<union> (if e' then {} else {rr'}))" by (rule l4)
      show "\<exists>ol. rr = Some ol \<and> 1 \<le> ol \<and> ol < length (nodes st4)"
        using a n2(1) n3 n4 by simp
      show "e' \<longrightarrow> (\<exists>b. fst sk1 = Some b \<and> b < length (nodes st4))"
        using v1 n4 by auto
      show "fst sk1 = Some 0 \<longrightarrow> rr = Some 1" using sink by simp
      show "\<not> e' \<longrightarrow> (\<exists>a. rr' = Some a \<and> 1 \<le> a \<and> a < length (nodes st4) \<and>
              (\<forall>ca. str_at w (r (ki\<lparr>l := snd (snd sk1)\<rparr>)) = Inr ca \<longrightarrow> lookup st4 a ca = None))"
        using ne c by auto
      show "\<not> e' \<and> r (ki1\<lparr>l := snd (snd sk1)\<rparr>) < l (ki1\<lparr>l := snd (snd sk1)\<rparr>) \<longrightarrow> rr' = fst sk1"
        using em by simp
    qed
    with n2(1) n3 n4 show ?thesis by simp
  qed
qed

subsection \<open>update, deploy_suffixes and addString keep the store well-formed\<close>

lemma linked_mono: "linked st n0 X \<Longrightarrow> X \<subseteq> Y \<Longrightarrow> linked st n0 Y"
  by (auto simp: linked_def)

lemma update_wf:
  assumes run: "update fuel st s ki = Inr (st', sk)" and wf: "wf_tree st" and n0: "2 \<le> n0"
    and lk: "linked st n0 {}"
  shows "wf_tree st' \<and> linked st' n0 {} \<and> length (nodes st) \<le> length (nodes st')"
proof -
  from run obtain w c st1 e rr where c: "str_at w (r ki) = Inr c"
    and tas: "test_and_split st s (ki\<lparr>r := r ki - 1\<rparr>) c w = Inr (st1, e, rr)"
    and loop: "update_loop fuel st1 w ki (ki\<lparr>r := r ki - 1\<rparr>) (s, (ref_str ki, l ki))
                 (Some root_addr) rr e = Inr (st', sk)"
    by (auto simp: update_def bnd_eq_Inr chk_Inr Let_def)
  from test_and_split_wf [OF tas wf, of n0 "{}"] lk
  have wf1: "wf_tree st1" and v: "\<exists>a. s = Some a \<and> a < length (nodes st)"
    and n1: "length (nodes st) \<le> length (nodes st1)"
    and ne: "\<not> e \<longrightarrow> (\<exists>q. rr = Some q \<and> 1 \<le> q \<and> q < length (nodes st1) \<and> lookup st1 q c = None)"
    and em: "r (ki\<lparr>r := r ki - 1\<rparr>) < l (ki\<lparr>r := r ki - 1\<rparr>) \<longrightarrow> rr = s"
    and l1: "linked st1 n0 ({} \<union> (if e then {} else {rr}))"
    by simp_all
  have "wf_tree st' \<and> linked st' n0 {} \<and> length (nodes st1) \<le> length (nodes st')"
  proof (rule update_loop_wf [OF loop wf1 n0])
    show "linked st1 n0 ({Some root_addr} \<union> (if e then {} else {rr}))"
      by (rule linked_mono [OF l1]) auto
    show "\<exists>ol. Some root_addr = Some ol \<and> 1 \<le> ol \<and> ol < length (nodes st1)"
      using wf1 by (simp add: wf_tree_def anchors_ok_def root_addr_def)
    show "e \<longrightarrow> (\<exists>b. fst (s, ref_str ki, l ki) = Some b \<and> b < length (nodes st1))"
      using v n1 by auto
    show "fst (s, ref_str ki, l ki) = Some 0 \<longrightarrow> Some root_addr = Some 1"
      by (simp add: root_addr_def)
    show "\<not> e \<longrightarrow> (\<exists>a. rr = Some a \<and> 1 \<le> a \<and> a < length (nodes st1) \<and>
            (\<forall>ca. str_at w (r ki) = Inr ca \<longrightarrow> lookup st1 a ca = None))"
      using ne c by auto
    show "\<not> e \<and> r (ki\<lparr>r := r ki - 1\<rparr>) < l (ki\<lparr>r := r ki - 1\<rparr>) \<longrightarrow> rr = fst (s, ref_str ki, l ki)"
      using em by simp
  qed
  with n1 show ?thesis by simp
qed

lemma deploy_for_wf:
  assumes "deploy_for fuel st sindex ap is = Inr (st', ap')" and "wf_tree st" and "2 \<le> n0"
    and "linked st n0 {}"
  shows "wf_tree st' \<and> linked st' n0 {} \<and> length (nodes st) \<le> length (nodes st')"
  using assms
proof (induction "is" arbitrary: st ap)
  case Nil
  then show ?case by simp
next
  case (Cons i "is")
  from Cons.prems(1) obtain st1 ap1 ap2 where
    u: "update fuel st (fst ap) \<lparr>ref_str = sindex, l = snd (snd ap), r = i\<rparr> = Inr (st1, ap1)"
    and rec: "deploy_for fuel st1 sindex ap2 is = Inr (st', ap')"
    by (auto simp: bnd_eq_Inr Let_def)
  from update_wf [OF u Cons.prems(2,3,4)]
  have 1: "wf_tree st1" "linked st1 n0 {}" "length (nodes st) \<le> length (nodes st1)" by simp_all
  from Cons.IH [OF rec 1(1) Cons.prems(3) 1(2)] 1(3) show ?case by simp
qed

lemma deploy_suffixes_wf:
  assumes "deploy_suffixes fuel st s sindex = Inr (st', d)" and "wf_tree st" and "2 \<le> n0"
    and "linked st n0 {}"
  shows "wf_tree st' \<and> linked st' n0 {} \<and> length (nodes st) \<le> length (nodes st')"
  using assms
  by (auto simp: deploy_suffixes_def bnd_eq_Inr split: if_splits dest!: deploy_for_wf)

lemma lookup_registry [simp]:
  "lookup (st\<lparr>haystack := h\<rparr>) = lookup st" "lookup (st\<lparr>last_index := k\<rparr>) = lookup st"
  by (simp_all add: lookup_def fun_eq_iff)

lemma reach_same_nodes:
  assumes "nodes st' = nodes st"
  shows "reach st' b = reach st b"
proof -
  from assms have "lookup st' = lookup st" by (simp add: lookup_def fun_eq_iff)
  then show ?thesis by (auto intro: reach_mono)
qed

lemma wf_tree_registry:
  assumes "wf_tree st" and "0 \<notin> fst ` set h"
  shows "wf_tree (st\<lparr>last_index := k, haystack := h\<rparr>)"
    and "wf_tree (st\<lparr>haystack := h, last_index := k\<rparr>)"
  using assms reach_same_nodes [of "st\<lparr>last_index := k, haystack := h\<rparr>" st]
    reach_same_nodes [of "st\<lparr>haystack := h, last_index := k\<rparr>" st]
  by (simp_all add: wf_tree_def anchors_ok_def edges_ok_def all_reachable_def links_ok_def)

lemma linked_registry [simp]:
  "linked (st\<lparr>last_index := k, haystack := h\<rparr>) n0 X = linked st n0 X"
  "linked (st\<lparr>haystack := h, last_index := k\<rparr>) n0 X = linked st n0 X"
  by (simp_all add: linked_def)

lemma addString_wf:
  assumes ok: "registry_ok st" and wf: "wf_tree st" and run: "addString fuel st w = Inr (st', d)"
  shows "wf_tree st' \<and> linked st' (length (nodes st)) {} \<and> length (nodes st) \<le> length (nodes st')"
proof -
  let ?k = "last_index st + 1"
  let ?st2 = "st\<lparr>last_index := ?k, haystack := umap_insert ?k w (haystack st)\<rparr>"
  from ok have fresh: "?k \<notin> fst ` set (haystack st)"
  proof -
    have "?k \<notin> set [1..last_index st]" by simp
    with ok show ?thesis by (simp add: registry_ok_def flip: set_map)
  qed
  from wf have z: "0 \<notin> fst ` set (haystack st)" and n2: "2 \<le> length (nodes st)"
    by (simp_all add: wf_tree_def anchors_ok_def)
  from ok have "?k \<noteq> 0" by (simp add: registry_ok_def)
  with z have z2: "0 \<notin> fst ` set (umap_insert ?k w (haystack st))"
    by (simp add: umap_insert_fresh [OF fresh])
  have wf2: "wf_tree ?st2" by (rule wf_tree_registry(1) [OF wf z2])
  have l2: "linked ?st2 (length (nodes st)) {}" by (auto simp: linked_def)
  from run have "\<exists>st3 d3. deploy_suffixes fuel ?st2 w ?k = Inr (st3, d3) \<and>
      (d3 < 0 \<and> d = - 1 \<and>
         st' = st3\<lparr>haystack := umap_erase (last_index st3) (haystack st3),
                     last_index := last_index st3 - 1\<rparr>
       \<or> \<not> d3 < 0 \<and> st' = st3 \<and> d = last_index st3)"
    by (auto simp: addString_def Let_def bnd_eq_Inr chk_Inr split: if_splits)
  then obtain st3 d3 where dep: "deploy_suffixes fuel ?st2 w ?k = Inr (st3, d3)"
    and res: "st' = st3\<lparr>haystack := umap_erase (last_index st3) (haystack st3),
                     last_index := last_index st3 - 1\<rparr> \<or> st' = st3"
    by blast
  from deploy_suffixes_wf [OF dep wf2 n2 l2]
  have 3: "wf_tree st3" "linked st3 (length (nodes st)) {}" "length (nodes st) \<le> length (nodes st3)"
    by simp_all
  from 3(1) have "0 \<notin> fst ` set (umap_erase (last_index st3) (haystack st3))"
    by (auto simp: wf_tree_def anchors_ok_def umap_erase_def)
  from wf_tree_registry(2) [OF 3(1) this]
  have "wf_tree (st3\<lparr>haystack := umap_erase (last_index st3) (haystack st3),
                     last_index := last_index st3 - 1\<rparr>)" .
  with res 3 show ?thesis by auto
qed

lemma addStrings_wf:
  "registry_ok st0 \<Longrightarrow> wf_tree st0 \<Longrightarrow> addStrings fuel st0 ws = Inr (st, ds) \<Longrightarrow>
     registry_ok st \<and> wf_tree st"
proof (induction ws arbitrary: st0 ds)
  case Nil
  then show ?case by simp
next
  case (Cons w ws)
  from Cons.prems(3) obtain st1 d ds' where
    a: "addString fuel st0 w = Inr (st1, d)" and rest: "addStrings fuel st1 ws = Inr (st, ds')"
    by (auto simp: bnd_eq_Inr)
  from addString_registry_ok [OF Cons.prems(1) a] addString_wf [OF Cons.prems(1,2) a]
  show ?case by (intro Cons.IH [OF _ _ rest]) simp_all
qed

section \<open>The sink's lookup in every tree\<close>

text \<open>Claim C4, amended: in the empty tree and after every sequence of calls of
  \<open>addString\<close>, failed or not, the sink's lookup returns for every symbol, inserted or
  not, a transition to the root whose substring reference is \<open>(0, 0, 0)\<close>, of length one
  (\<open>r - l + 1 = 1\<close>).\<close>

theorem sink_lookup:
  assumes "addStrings fuel Base ws = Inr (st, ds)"
  shows "find_alpha_transition (nodes st ! sink_addr) alpha =
           \<lparr>sub = \<lparr>ref_str = 0, l = 0, r = 0\<rparr>, tgt = Some root_addr\<rparr>"
proof -
  from addStrings_wf [OF registry_ok_Base wf_tree_Base assms] have "anchors_ok st"
    by (simp add: wf_tree_def)
  then show ?thesis
    by (simp add: anchors_ok_def find_alpha_transition_def)
qed

theorem sink_lookup_witness:
  "addStrings 2 Base [''xx'', ''x''] = Inr (tree_xx, [1, - 1]) \<and>
   find_alpha_transition (nodes tree_xx ! sink_addr) (CHR ''q'') =
     \<lparr>sub = \<lparr>ref_str = 0, l = 0, r = 0\<rparr>, tgt = Some root_addr\<rparr>"
proof -
  have h: "addStrings 2 Base [''xx'', ''x''] = Inr (tree_xx, [1, - 1])" by code_simp
  from sink_lookup [OF h] h show ?thesis by simp
qed

section \<open>Insertions that return\<close>


























end
